theory Spec2Isabelle
  imports Complex_Main "HOL-Library.Log_Nat"
begin

section \<open>Python strings\<close>

text \<open>
  A Python \<^verbatim>\<open>str\<close> is a sequence of Unicode code points, so a string is a list of
  natural numbers here (the check mark U+2705 of the task pattern is the one code point
  9989).  \<open>str\<close> turns an ASCII literal into such a list.
\<close>

type_synonym ustr = "nat list"

definition str :: "string \<Rightarrow> ustr" where
  "str cs = map of_char cs"

text \<open>
  \<^verbatim>\<open>str.strip()\<close> removes the characters for which \<^verbatim>\<open>str.isspace\<close> holds from both ends.
\<close>

definition is_space :: "nat \<Rightarrow> bool" where
  "is_space c \<longleftrightarrow>
     (9 \<le> c \<and> c \<le> 13) \<or> (28 \<le> c \<and> c \<le> 32) \<or> c = 133 \<or> c = 160 \<or> c = 5760 \<or>
     (8192 \<le> c \<and> c \<le> 8202) \<or> c = 8232 \<or> c = 8233 \<or> c = 8239 \<or> c = 8287 \<or> c = 12288"

definition strip :: "ustr \<Rightarrow> ustr" where
  "strip s = rev (dropWhile is_space (rev (dropWhile is_space s)))"

text \<open>
  \<^verbatim>\<open>str.splitlines()\<close>: the line boundaries are LF, VT, FF, CR, CR LF (one boundary), FS, GS,
  RS, NEL, LS and PS; the boundaries are dropped, and a boundary at the very end opens no
  further (empty) line.
\<close>

definition is_linebreak :: "nat \<Rightarrow> bool" where
  "is_linebreak c \<longleftrightarrow>
     (10 \<le> c \<and> c \<le> 13) \<or> (28 \<le> c \<and> c \<le> 30) \<or> c = 133 \<or> c = 8232 \<or> c = 8233"

fun splitlines_from :: "ustr \<Rightarrow> ustr \<Rightarrow> ustr list" where
  "splitlines_from cur [] = (if cur = [] then [] else [cur])"
| "splitlines_from cur (c # cs) =
     (if c = 13 \<and> cs \<noteq> [] \<and> hd cs = 10 then cur # splitlines_from [] (tl cs)
      else if is_linebreak c then cur # splitlines_from [] cs
      else splitlines_from (cur @ [c]) cs)"

definition splitlines :: "ustr \<Rightarrow> ustr list" where
  "splitlines s = splitlines_from [] s"

section \<open>Regular expressions with Python's backtracking order\<close>

text \<open>
  The patterns of \<^verbatim>\<open>parse_markdown\<close> use literals, character classes, \<^verbatim>\<open>^\<close> and \<^verbatim>\<open>$\<close>,
  greedy \<^verbatim>\<open>*\<close>, \<^verbatim>\<open>+\<close>, \<^verbatim>\<open>?\<close>, the lazy \<^verbatim>\<open>*?\<close>, alternation and (capturing) groups.
  \<open>rmatch\<close> is a backtracking matcher in continuation-passing style: it matches a pattern
  at the front of the remaining input and hands the groups captured so far and the rest of
  the input to the continuation; where the continuation fails it backtracks to the next
  choice, in the order of Python's matcher (a greedy operator tries its operand first, a
  lazy one last; the left branch of an alternation first).  The first success is the
  result, as for \<^verbatim>\<open>re.match\<close>.  \<open>n0\<close> is the length of the whole subject, for \<^verbatim>\<open>^\<close>.
\<close>

datatype regex =
    Eps
  | Lit ustr
  | Cls "nat \<Rightarrow> bool"
  | Bol
  | Eol
  | Seq regex regex
  | Alt regex regex
  | Star regex
  | LazyStar regex
  | Opt regex
  | Grp nat regex

type_synonym caps = "nat \<Rightarrow> ustr option"

definition starts_with :: "ustr \<Rightarrow> ustr \<Rightarrow> bool" where
  "starts_with s w \<longleftrightarrow> take (length w) s = w"

fun rmatch ::
  "nat \<Rightarrow> regex \<Rightarrow> (caps \<Rightarrow> ustr \<Rightarrow> caps option) \<Rightarrow> caps \<Rightarrow> ustr \<Rightarrow> caps option" where
  "rmatch n0 Eps k cp s = k cp s"
| "rmatch n0 (Lit w) k cp s =
     (if starts_with s w then k cp (drop (length w) s) else None)"
| "rmatch n0 (Cls p) k cp s =
     (case s of [] \<Rightarrow> None | c # cs \<Rightarrow> if p c then k cp cs else None)"
| "rmatch n0 Bol k cp s = (if length s = n0 then k cp s else None)"
| "rmatch n0 Eol k cp s = (if s = [] \<or> s = [10] then k cp s else None)"
| "rmatch n0 (Seq a b) k cp s = rmatch n0 a (\<lambda>cp' s'. rmatch n0 b k cp' s') cp s"
| "rmatch n0 (Alt a b) k cp s =
     (case rmatch n0 a k cp s of Some r \<Rightarrow> Some r | None \<Rightarrow> rmatch n0 b k cp s)"
| "rmatch n0 (Star a) k cp s =
     (case rmatch n0 a (\<lambda>cp' s'. if length s' < length s
                                      then rmatch n0 (Star a) k cp' s' else None) cp s of
        Some r \<Rightarrow> Some r
      | None \<Rightarrow> k cp s)"
| "rmatch n0 (LazyStar a) k cp s =
     (case k cp s of
        Some r \<Rightarrow> Some r
      | None \<Rightarrow> rmatch n0 a (\<lambda>cp' s'. if length s' < length s
                                            then rmatch n0 (LazyStar a) k cp' s' else None) cp s)"
| "rmatch n0 (Opt a) k cp s =
     (case rmatch n0 a k cp s of Some r \<Rightarrow> Some r | None \<Rightarrow> k cp s)"
| "rmatch n0 (Grp n a) k cp s =
     rmatch n0 a (\<lambda>cp' s'. k (cp'(n \<mapsto> take (length s - length s') s)) s') cp s"

definition re_match :: "regex \<Rightarrow> ustr \<Rightarrow> caps option" where
  "re_match r s = rmatch (length s) r (\<lambda>cp s'. Some cp) (\<lambda>n. None) s"

definition Plus :: "regex \<Rightarrow> regex" where
  "Plus r = Seq r (Star r)"

fun seqs :: "regex list \<Rightarrow> regex" where
  "seqs [] = Eps"
| "seqs [r] = r"
| "seqs (r # rs) = Seq r (seqs rs)"

fun alts :: "regex list \<Rightarrow> regex" where
  "alts [] = Eps"
| "alts [r] = r"
| "alts (r # rs) = Alt r (alts rs)"

definition any_char :: "nat \<Rightarrow> bool" where
  "any_char c \<longleftrightarrow> c \<noteq> 10"

definition upper :: "nat \<Rightarrow> bool" where
  "upper c \<longleftrightarrow> 65 \<le> c \<and> c \<le> 90"

definition lower :: "nat \<Rightarrow> bool" where
  "lower c \<longleftrightarrow> 97 \<le> c \<and> c \<le> 122"

definition colon :: "nat \<Rightarrow> bool" where
  "colon c \<longleftrightarrow> c = 58"

text \<open>
  The four patterns of lines 18 to 21.  \<^verbatim>\<open>\d\<close> in a \<^verbatim>\<open>str\<close> pattern is the interpreter's
  table of Unicode decimal digits; the table is the parameter \<open>dg\<close>.
\<close>

definition epic_re :: "(nat \<Rightarrow> bool) \<Rightarrow> regex" where
  "epic_re dg =
     seqs [Bol, Lit (str ''## ''),
           Grp 1 (seqs [Lit (str ''Epic ''), Plus (Cls dg), Lit (str '':''), Star (Cls any_char)]),
           Eol]"

definition sprint_re :: "(nat \<Rightarrow> bool) \<Rightarrow> regex" where
  "sprint_re dg =
     seqs [Bol, Lit (str ''### **''),
           Grp 1 (seqs [Lit (str ''Sprint ''), Plus (Cls dg), Lit (str '':''),
                        LazyStar (Cls any_char)]),
           Opt (seqs [Lit (str ''(''), LazyStar (Cls any_char), Lit (str '')'')]),
           Lit (str ''**''), Opt (Cls colon), Eol]"

definition microversion_re :: "(nat \<Rightarrow> bool) \<Rightarrow> regex" where
  "microversion_re dg =
     seqs [Bol, Lit (str ''##### **v''),
           Grp 1 (seqs [Plus (Cls dg), Lit (str ''.''), Plus (Cls dg), Lit (str ''.''),
                        Plus (Cls dg), Lit (str ''.''), Plus (Cls dg), Opt (Cls lower)]),
           Lit (str '' - ''), Grp 2 (LazyStar (Cls any_char)), Lit (str ''**''),
           Star (Cls any_char), Eol]"

definition check_mark :: ustr where
  "check_mark = [9989]"

definition marker_words :: "ustr list" where
  "marker_words =
     [str '' - **Effort'', str ''[Effort'', str ''(Effort'', str ''Dependencies'',
      str ''Assignee'', str ''Granular Steps'', str ''Completion Notes'']"

definition markers :: "regex list" where
  "markers = map Lit marker_words @ [Eol]"

definition task_re :: "(nat \<Rightarrow> bool) \<Rightarrow> regex" where
  "task_re dg =
     seqs [Bol, Lit (str ''- [''),
           Grp 1 (alts [Lit (str ''x''), Lit (str '' ''), Lit check_mark]),
           Lit (str ''] **''),
           Grp 2 (seqs [Plus (Cls upper), Plus (Cls dg),
                        Star (Seq (Lit (str ''.'')) (Plus (Cls dg)))]),
           Lit (str ''**: ''), Grp 3 (LazyStar (Cls any_char)), alts markers]"

section \<open>The parsed model\<close>

datatype status = Complete | Open

record task =
  task_id :: "ustr option"
  description :: ustr
  status :: status

record microversion =
  mv_title :: ustr
  tasks :: "task list"

text \<open>
  A sprint dictionary has the keys \<^verbatim>\<open>title\<close> and \<^verbatim>\<open>microversions\<close>; the renderer also asks
  for a key \<^verbatim>\<open>tasks\<close>, which the parser never sets (\<open>None\<close>: the key is absent).
\<close>

record sprint =
  title :: ustr
  microversions :: "microversion list"
  sprint_tasks :: "task list option"

datatype error = AttributeError | TypeError | ZeroDivisionError

definition bindE :: "error + 'a \<Rightarrow> ('a \<Rightarrow> error + 'b) \<Rightarrow> error + 'b" where
  "bindE m f = (case m of Inl e \<Rightarrow> Inl e | Inr x \<Rightarrow> f x)"

text \<open>
  \<^verbatim>\<open>m.group(n)\<close> raises on \<^verbatim>\<open>None\<close> and gives \<^verbatim>\<open>None\<close> for a group that took no part in the
  match; \<^verbatim>\<open>.strip()\<close> on \<^verbatim>\<open>None\<close> raises; an f-string prints \<^verbatim>\<open>None\<close> as the word.
\<close>

definition group :: "caps option \<Rightarrow> nat \<Rightarrow> error + ustr option" where
  "group m n = (case m of None \<Rightarrow> Inl AttributeError | Some cp \<Rightarrow> Inr (cp n))"

definition strip_of :: "ustr option \<Rightarrow> error + ustr" where
  "strip_of g = (case g of None \<Rightarrow> Inl AttributeError | Some s \<Rightarrow> Inr (strip s))"

definition format_str :: "ustr option \<Rightarrow> ustr" where
  "format_str g = (case g of None \<Rightarrow> str ''None'' | Some s \<Rightarrow> s)"

section \<open>parse\_markdown\<close>

record pstate =
  sprints :: "sprint list"
  current_sprint :: "sprint option"
  current_microversion :: "microversion option"

definition init_state :: pstate where
  "init_state = \<lparr>sprints = [], current_sprint = None, current_microversion = None\<rparr>"

text \<open>\<^verbatim>\<open>current_sprint["microversions"].append(mv)\<close>; subscripting \<^verbatim>\<open>None\<close> raises.\<close>

definition append_microversion :: "sprint option \<Rightarrow> microversion \<Rightarrow> error + sprint option" where
  "append_microversion cs mv =
     (case cs of None \<Rightarrow> Inl TypeError
      | Some s \<Rightarrow> Inr (Some (s\<lparr>microversions := microversions s @ [mv]\<rparr>)))"

definition append_task :: "microversion option \<Rightarrow> task \<Rightarrow> error + microversion option" where
  "append_task cm t =
     (case cm of None \<Rightarrow> Inl TypeError
      | Some mv \<Rightarrow> Inr (Some (mv\<lparr>tasks := tasks mv @ [t]\<rparr>)))"

text \<open>\<^verbatim>\<open>if current_sprint: sprints.append(current_sprint)\<close> (lines 25-26 and 30-34).\<close>

definition close_sprint :: "pstate \<Rightarrow> sprint list" where
  "close_sprint st =
     (case current_sprint st of None \<Rightarrow> sprints st | Some s \<Rightarrow> sprints st @ [s])"

text \<open>The body of the loop over the lines (lines 18 to 48).\<close>

definition step :: "(nat \<Rightarrow> bool) \<Rightarrow> pstate \<Rightarrow> ustr \<Rightarrow> error + pstate" where
  "step dg st line =
     (let epic_match = re_match (epic_re dg) line;
          sprint_match = re_match (sprint_re dg) line;
          microversion_match = re_match (microversion_re dg) line;
          task_match = re_match (task_re dg) line
      in
        if epic_match \<noteq> None then
          bindE (group epic_match 1) (\<lambda>g. bindE (strip_of g) (\<lambda>t.
            Inr \<lparr>sprints = close_sprint st,
                 current_sprint = Some \<lparr>title = t, microversions = [], sprint_tasks = None\<rparr>,
                 current_microversion = None\<rparr>))
        else if sprint_match \<noteq> None then
          bindE (group sprint_match 1) (\<lambda>g. bindE (strip_of g) (\<lambda>t.
            Inr \<lparr>sprints = close_sprint st,
                 current_sprint = Some \<lparr>title = t, microversions = [], sprint_tasks = None\<rparr>,
                 current_microversion = None\<rparr>))
        else if microversion_match \<noteq> None \<and> current_sprint st \<noteq> None then
          bindE (case current_microversion st of
                   None \<Rightarrow> Inr (current_sprint st)
                 | Some cm \<Rightarrow> append_microversion (current_sprint st) cm) (\<lambda>cs.
          bindE (group microversion_match 1) (\<lambda>g1.
          bindE (group microversion_match 2) (\<lambda>g2. bindE (strip_of g2) (\<lambda>t2.
            Inr \<lparr>sprints = sprints st, current_sprint = cs,
                 current_microversion =
                   Some \<lparr>mv_title = str ''v'' @ format_str g1 @ str '' - '' @ t2,
                         tasks = []\<rparr>\<rparr>))))
        else if task_match \<noteq> None \<and> current_microversion st \<noteq> None then
          bindE (group task_match 1) (\<lambda>status_char.
          bindE (group task_match 2) (\<lambda>tid.
          bindE (group task_match 3) (\<lambda>g3. bindE (strip_of g3) (\<lambda>d.
          bindE (append_task (current_microversion st)
                   \<lparr>task_id = tid, description = d,
                    status = (if status_char = Some (str ''x'') \<or> status_char = Some check_mark
                              then Complete else Open)\<rparr>) (\<lambda>cm.
            Inr (st\<lparr>current_microversion := cm\<rparr>))))))
        else Inr st)"

fun scan :: "(nat \<Rightarrow> bool) \<Rightarrow> pstate \<Rightarrow> ustr list \<Rightarrow> error + pstate" where
  "scan dg st [] = Inr st"
| "scan dg st (l # ls) = (case step dg st l of Inl e \<Rightarrow> Inl e | Inr st' \<Rightarrow> scan dg st' ls)"

text \<open>Lines 50 to 56: the last open microversion and sprint are appended.\<close>

definition finish :: "pstate \<Rightarrow> error + sprint list" where
  "finish st =
     bindE (case current_microversion st of
              None \<Rightarrow> Inr (current_sprint st)
            | Some cm \<Rightarrow> if current_sprint st \<noteq> None
                         then append_microversion (current_sprint st) cm
                         else Inr (current_sprint st)) (\<lambda>cs.
       Inr (close_sprint (st\<lparr>current_sprint := cs\<rparr>)))"

definition parse_lines :: "(nat \<Rightarrow> bool) \<Rightarrow> ustr list \<Rightarrow> error + sprint list" where
  "parse_lines dg ls = bindE (scan dg init_state ls) finish"

definition parse_markdown :: "(nat \<Rightarrow> bool) \<Rightarrow> ustr \<Rightarrow> error + sprint list" where
  "parse_markdown dg md_content = parse_lines dg (splitlines md_content)"

text \<open>The ASCII digits: the part of the digit table that every interpreter shares.\<close>

definition ascii_digit :: "nat \<Rightarrow> bool" where
  "ascii_digit c \<longleftrightarrow> 48 \<le> c \<and> c \<le> 57"

section \<open>Python floats\<close>

text \<open>
  A Python \<^verbatim>\<open>float\<close> is an IEEE 754 double.  Its finite values are rationals, so a float is
  a rational number here, and \<open>to_double\<close> rounds an exact result to the nearest double (53
  bits of mantissa, ties to the even mantissa), which is what \<^verbatim>\<open>int / int\<close> and
  \<^verbatim>\<open>float * int\<close> return.  The exponent range of a double is not modelled (no overflow, no
  subnormal numbers): the quotients of the renderer are quotients of list lengths and
  stay far inside it.
\<close>

definition round_half_even :: "rat \<Rightarrow> int" where
  "round_half_even x =
     (let f = \<lfloor>x\<rfloor>; r = x - of_int f
      in if r < 1 / 2 then f else if 1 / 2 < r then f + 1 else if even f then f else f + 1)"

text \<open>The binary exponent of a positive number \<open>q\<close>: \<open>2 powi expo q \<le> q < 2 powi (expo q + 1)\<close>.\<close>

definition expo :: "rat \<Rightarrow> int" where
  "expo q = (if 1 \<le> q then int (floorlog 2 (nat \<lfloor>q\<rfloor>)) - 1
             else - int (floorlog 2 (nat (\<lceil>1 / q\<rceil> - 1))))"

definition to_double :: "rat \<Rightarrow> rat" where
  "to_double q =
     (if q = 0 then 0
      else let u = 2 powi (expo \<bar>q\<bar> - 52)
           in sgn q * of_int (round_half_even (\<bar>q\<bar> / u)) * u)"

text \<open>\<^verbatim>\<open>str(n)\<close> of a natural number, in decimal.\<close>

fun str_of_nat :: "nat \<Rightarrow> ustr" where
  "str_of_nat n = (if n < 10 then [48 + n] else str_of_nat (n div 10) @ [48 + n mod 10])"

declare str_of_nat.simps [simp del]

text \<open>
  The format \<^verbatim>\<open>.1f\<close>: the exact value rounded to one decimal place (ties to even), printed
  with the digit after the point.  \<open>tenths x\<close> is the number of tenths printed.
\<close>

definition tenths :: "rat \<Rightarrow> nat" where
  "tenths x = nat (round_half_even (\<bar>x\<bar> * 10))"

definition fixed1 :: "rat \<Rightarrow> ustr" where
  "fixed1 x =
     (if x < 0 then str ''-'' else []) @ str_of_nat (tenths x div 10) @ str ''.'' @
     str_of_nat (tenths x mod 10)"

section \<open>generate\_html\_report\<close>

text \<open>
  What the renderer takes from its surroundings: the stylesheet link
  \<^verbatim>\<open>os.path.relpath(css_path, os.path.dirname(output_path))\<close>, the time stamp
  \<^verbatim>\<open>datetime.now().strftime(...)\<close>, and the interpreter's \<^verbatim>\<open>repr\<close> of a float (the shortest
  decimal string that reads back as the same double).
\<close>

definition nl :: ustr where
  "nl = [10]"

record env =
  stylesheet_href :: ustr
  generated_on :: ustr
  float_repr :: "rat \<Rightarrow> ustr"

text \<open>A progress value is the integer \<^verbatim>\<open>0\<close> or a float (lines 121 and 139).\<close>

datatype pynum = PyInt int | PyFloat rat

fun num_value :: "pynum \<Rightarrow> rat" where
  "num_value (PyInt i) = of_int i"
| "num_value (PyFloat x) = x"

definition str_of_int :: "int \<Rightarrow> ustr" where
  "str_of_int i = (if i < 0 then str ''-'' @ str_of_nat (nat (- i)) else str_of_nat (nat i))"

text \<open>\<^verbatim>\<open>{p}\<close> and \<^verbatim>\<open>{p:.1f}\<close> in an f-string.\<close>

fun str_of_num :: "(rat \<Rightarrow> ustr) \<Rightarrow> pynum \<Rightarrow> ustr" where
  "str_of_num repr (PyInt i) = str_of_int i"
| "str_of_num repr (PyFloat x) = repr x"

definition format_1f :: "pynum \<Rightarrow> ustr" where
  "format_1f p = fixed1 (num_value p)"

text \<open>\<^verbatim>\<open>(completed / total * 100) if total > 0 else 0\<close>.\<close>

definition progress :: "nat \<Rightarrow> nat \<Rightarrow> pynum" where
  "progress completed_tasks total_tasks =
     (if total_tasks > 0
      then PyFloat (to_double (to_double (of_nat completed_tasks / of_nat total_tasks) * 100))
      else PyInt 0)"

text \<open>\<^verbatim>\<open>sum(1 for task in tasks if task['status'] == 'Complete')\<close>.\<close>

definition count_complete :: "task list \<Rightarrow> nat" where
  "count_complete ts = length (filter (\<lambda>t. status t = Complete) ts)"

definition status_class :: "task \<Rightarrow> ustr" where
  "status_class t = (if status t = Complete then str ''task-complete'' else str ''task-open'')"

definition task_item :: "task \<Rightarrow> ustr" where
  \<open>task_item t =
     str ''      <li class="'' @ status_class t @ str ''"><strong>'' @ format_str (task_id t) @
     str ''</strong>: '' @ description t @ str ''</li>'' @ nl\<close>

text \<open>
  The text of a progress bar, \<^verbatim>\<open>{completed}/{total} ({progress:.1f}%)\<close>, is the same in the
  bar of a microversion (lines 123 to 126) and in the summary of a sprint (lines 141 to
  144).
\<close>

definition progress_text :: "nat \<Rightarrow> nat \<Rightarrow> pynum \<Rightarrow> ustr" where
  "progress_text completed_tasks total_tasks p =
     str_of_nat completed_tasks @ str ''/'' @ str_of_nat total_tasks @ str '' ('' @
     format_1f p @ str ''%)''"

definition progress_bar :: "env \<Rightarrow> nat \<Rightarrow> nat \<Rightarrow> pynum \<Rightarrow> ustr" where
  \<open>progress_bar e completed_tasks total_tasks p =
     str ''    <div class="progress-bar-container">'' @ nl @
     str ''      <div class="progress-bar" style="width: '' @ str_of_num (float_repr e) p @
     str ''%;">'' @ progress_text completed_tasks total_tasks p @ str ''</div>'' @ nl @
     str ''    </div>'' @ nl\<close>

definition sprint_summary :: "env \<Rightarrow> nat \<Rightarrow> nat \<Rightarrow> pynum \<Rightarrow> ustr" where
  \<open>sprint_summary e completed_tasks total_tasks p =
     str ''  <div class="sprint-summary progress-bar-container">'' @ nl @
     str ''      <strong>Sprint Progress:</strong> <div class="progress-bar" style="width: '' @
     str_of_num (float_repr e) p @ str ''%;">'' @ progress_text completed_tasks total_tasks p @
     str ''</div>'' @ nl @
     str ''  </div>'' @ nl\<close>

definition microversion_open :: "microversion \<Rightarrow> ustr" where
  \<open>microversion_open mv =
     str ''  <div class="microversion">'' @ nl @
     str ''    <h3>'' @ mv_title mv @ str ''</h3>'' @ nl\<close>

definition task_list :: "task list \<Rightarrow> ustr" where
  "task_list ts = str ''    <ul>'' @ nl @ concat (map task_item ts) @ str ''    </ul>'' @ nl"

definition no_tasks_notice :: ustr where
  "no_tasks_notice = str ''    <p>No tasks defined for this microversion.</p>'' @ nl"

text \<open>What the loops over a sprint carry along: the page so far and the two counters.\<close>

record racc =
  html_content :: ustr
  total_sprint_tasks :: nat
  completed_sprint_tasks :: nat

text \<open>The body of the loop over the microversions of a sprint (lines 109 to 137).\<close>

definition render_microversion :: "env \<Rightarrow> racc \<Rightarrow> microversion \<Rightarrow> racc" where
  "render_microversion e acc mv =
     (let html1 = html_content acc @ microversion_open mv;
          total_mv_tasks = length (tasks mv);
          completed_mv_tasks = count_complete (tasks mv);
          mv_progress = progress completed_mv_tasks total_mv_tasks;
          html2 = html1 @ progress_bar e completed_mv_tasks total_mv_tasks mv_progress;
          html3 = (if tasks mv \<noteq> [] then html2 @ task_list (tasks mv)
                   else html2 @ no_tasks_notice)
      in \<lparr>html_content = html3 @ str ''  </div>'' @ nl,
          total_sprint_tasks = total_sprint_tasks acc + total_mv_tasks,
          completed_sprint_tasks = completed_sprint_tasks acc + completed_mv_tasks\<rparr>)"

text \<open>
  Lines 96 to 106: the tasks under the key \<^verbatim>\<open>tasks\<close> of a sprint, when the key is there and
  its list is not empty.
\<close>

definition render_direct_tasks :: "racc \<Rightarrow> sprint \<Rightarrow> racc" where
  "render_direct_tasks acc s =
     (case sprint_tasks s of
        None \<Rightarrow> acc
      | Some direct_tasks \<Rightarrow>
          if direct_tasks = [] then acc
          else \<lparr>html_content = html_content acc @ str ''  <ul>'' @ nl @
                    concat (map task_item direct_tasks) @ str ''  </ul>'' @ nl,
                total_sprint_tasks = total_sprint_tasks acc + length direct_tasks,
                completed_sprint_tasks = completed_sprint_tasks acc + count_complete direct_tasks\<rparr>)"

definition sprint_open :: "sprint \<Rightarrow> ustr" where
  \<open>sprint_open s =
     str ''<section class="sprint">'' @ nl @ str ''  <h2>'' @ title s @ str ''</h2>'' @ nl\<close>

text \<open>
  The body of the loop over the sprints (lines 76 to 145; the test of lines 77 to 86 only
  passes).  \<open>sprint_totals\<close> is the page and the counters after the microversions, line 138.
\<close>

definition sprint_totals :: "env \<Rightarrow> ustr \<Rightarrow> sprint \<Rightarrow> racc" where
  "sprint_totals e html s =
     foldl (render_microversion e)
       (render_direct_tasks
          \<lparr>html_content = html @ sprint_open s, total_sprint_tasks = 0,
           completed_sprint_tasks = 0\<rparr> s)
       (microversions s)"

definition render_sprint :: "env \<Rightarrow> ustr \<Rightarrow> sprint \<Rightarrow> ustr" where
  "render_sprint e html s =
     (let acc = sprint_totals e html s;
          sprint_progress = progress (completed_sprint_tasks acc) (total_sprint_tasks acc);
          html1 = (if total_sprint_tasks acc > 0
                   then html_content acc @
                        sprint_summary e (completed_sprint_tasks acc) (total_sprint_tasks acc)
                          sprint_progress
                   else html_content acc)
      in html1 @ str ''</section>'' @ nl)"

definition page_head :: "env \<Rightarrow> ustr" where
  \<open>page_head e =
     str ''<!DOCTYPE html>'' @ nl @
     str ''<html lang="en">'' @ nl @
     str ''<head>'' @ nl @
     str ''    <meta charset="UTF-8">'' @ nl @
     str ''    <meta name="viewport" content="width=device-width, initial-scale=1.0">'' @ nl @
     str ''    <title>Agile Sprint Status Report</title>'' @ nl @
     str ''    <link rel="stylesheet" href="'' @ stylesheet_href e @ str ''">'' @ nl @
     str ''</head>'' @ nl @
     str ''<body>'' @ nl @
     str ''    <header>'' @ nl @
     str ''        <h1>Adventure Jumper - Agile Sprint Status Report</h1>'' @ nl @
     str ''        <p>Generated on: '' @ generated_on e @ str ''</p>'' @ nl @
     str ''    </header>'' @ nl @
     str ''    <main>'' @ nl\<close>

definition page_foot :: ustr where
  \<open>page_foot =
     nl @ str ''    </main>'' @ nl @ str ''    <footer>'' @ nl @
     str ''        <p>End of Report</p>'' @ nl @ str ''    </footer>'' @ nl @
     str ''</body>'' @ nl @ str ''</html>''\<close>

text \<open>The page that \<^verbatim>\<open>generate_html_report\<close> writes to the output file.\<close>

definition generate_html_report :: "env \<Rightarrow> sprint list \<Rightarrow> ustr" where
  "generate_html_report e model = foldl (render_sprint e) (page_head e) model @ page_foot"

section \<open>Notions used in the statements and proofs\<close>

text \<open>
  The groups a pattern can set (\<open>groups\<close>) and the groups that every match of it sets
  (\<open>sets\<close>); \<open>reaches r cp s cp' s'\<close> relates the captures and input before a match of
  \<open>r\<close> to those handed to the continuation.
\<close>

fun groups :: "regex \<Rightarrow> nat set" where
  "groups (Grp n a) = insert n (groups a)"
| "groups (Seq a b) = groups a \<union> groups b"
| "groups (Alt a b) = groups a \<union> groups b"
| "groups (Star a) = groups a"
| "groups (LazyStar a) = groups a"
| "groups (Opt a) = groups a"
| "groups _ = {}"

fun sets :: "regex \<Rightarrow> nat \<Rightarrow> bool" where
  "sets (Grp n a) m = (m = n \<or> sets a m)"
| "sets (Seq a b) m = (sets a m \<or> sets b m)"
| "sets (Alt a b) m = (sets a m \<and> sets b m)"
| "sets _ m = False"

definition reaches :: "regex \<Rightarrow> caps \<Rightarrow> ustr \<Rightarrow> caps \<Rightarrow> ustr \<Rightarrow> bool" where
  "reaches r cp s cp' s' \<longleftrightarrow>
     (\<exists>p. s = p @ s') \<and> (\<forall>m. m \<notin> groups r \<longrightarrow> cp' m = cp m) \<and>
     (\<forall>m. cp m \<noteq> None \<longrightarrow> cp' m \<noteq> None) \<and> (\<forall>m. sets r m \<longrightarrow> cp' m \<noteq> None)"

text \<open>
  Where the description of a task ends: at the first position of the text after the
  colon of the identifier at which one of the marker words of the task pattern starts, or
  the line ends (\<^verbatim>\<open>$\<close> also matches before a final line feed).
\<close>

definition at_marker :: "ustr \<Rightarrow> bool" where
  "at_marker s \<longleftrightarrow> list_ex (starts_with s) marker_words \<or> s = [] \<or> s = [10]"

fun desc_end :: "ustr \<Rightarrow> nat" where
  "desc_end [] = 0"
| "desc_end (c # cs) = (if at_marker (c # cs) then 0 else Suc (desc_end cs))"

text \<open>
  The same with the marker words as the specification lists them: \<^verbatim>\<open>- **Effort\<close> has no
  blank in front there.
\<close>

definition claimed_marker_words :: "ustr list" where
  "claimed_marker_words =
     [str ''- **Effort'', str ''[Effort'', str ''(Effort'', str ''Dependencies'',
      str ''Assignee'', str ''Granular Steps'', str ''Completion Notes'']"

definition claimed_at_marker :: "ustr \<Rightarrow> bool" where
  "claimed_at_marker s \<longleftrightarrow> list_ex (starts_with s) claimed_marker_words \<or> s = [] \<or> s = [10]"

fun claimed_desc_end :: "ustr \<Rightarrow> nat" where
  "claimed_desc_end [] = 0"
| "claimed_desc_end (c # cs) = (if claimed_at_marker (c # cs) then 0 else Suc (claimed_desc_end cs))"

definition claimed_description :: "ustr \<Rightarrow> ustr" where
  "claimed_description rest = strip (take (claimed_desc_end rest) rest)"

text \<open>An open microversion always lies inside an open sprint.\<close>

definition mv_inside :: "pstate \<Rightarrow> bool" where
  "mv_inside st \<longleftrightarrow> (current_microversion st \<noteq> None \<longrightarrow> current_sprint st \<noteq> None)"

text \<open>The patterns of the loop body that match a line.\<close>

definition matching :: "(nat \<Rightarrow> bool) \<Rightarrow> ustr \<Rightarrow> regex list" where
  "matching dg l =
     filter (\<lambda>r. re_match r l \<noteq> None)
       [epic_re dg, sprint_re dg, microversion_re dg, task_re dg]"

subsection \<open>Example documents\<close>

text \<open>Lines of a sprint plan, and plans made of them (every line ends with a line feed).\<close>

definition join_lines :: "ustr list \<Rightarrow> ustr" where
  "join_lines ls = concat (map (\<lambda>l. l @ [10]) ls)"

definition line_epic :: ustr where
  "line_epic = str ''## Epic 1: Foo''"

definition line_sprint :: ustr where
  "line_sprint = str ''### **Sprint 1: Bar**''"

definition line_sprint2 :: ustr where
  "line_sprint2 = str ''### **Sprint 2: Baz**''"

definition line_microversion :: ustr where
  "line_microversion = str ''##### **v0.1.0.0 - Setup**''"

definition line_task_done :: ustr where
  "line_task_done = str ''- [x] **T1.1**: Do thing - **Effort**: 2h''"

definition line_task_open :: ustr where
  "line_task_open = str ''- [ ] **T1.2**: Do other thing''"

definition line_task_glued :: ustr where
  "line_task_glued = str ''- [ ] **T1**: fix- **Effort**: 2h''"

definition line_notes :: ustr where
  "line_notes = str ''Some notes on the plan.''"

definition example_plan :: ustr where
  "example_plan =
     join_lines [line_epic, line_sprint, line_microversion, line_task_done, line_task_open]"

definition plan_two_sprints :: ustr where
  "plan_two_sprints = join_lines [line_sprint, line_microversion, line_task_done, line_sprint2]"

definition plan_glued :: ustr where
  "plan_glued = join_lines [line_sprint, line_microversion, line_task_glued]"

subsection \<open>Notions for the renderer\<close>


text \<open>The unit in the last place of the mantissa of a positive number.\<close>

definition ulp :: "rat \<Rightarrow> rat" where
  "ulp q = 2 powi (expo q - 52)"

text \<open>What one microversion and one sprint add to the page.\<close>

definition microversion_block :: "env \<Rightarrow> microversion \<Rightarrow> ustr" where
  "microversion_block e mv =
     html_content (render_microversion e
       \<lparr>html_content = [], total_sprint_tasks = 0, completed_sprint_tasks = 0\<rparr> mv)"

definition sprint_block :: "env \<Rightarrow> sprint \<Rightarrow> ustr" where
  "sprint_block e s = render_sprint e [] s"

definition direct_tasks :: "sprint \<Rightarrow> task list" where
  "direct_tasks s = (case sprint_tasks s of None \<Rightarrow> [] | Some ts \<Rightarrow> ts)"

definition direct_block :: "sprint \<Rightarrow> ustr" where
  "direct_block s =
     (if direct_tasks s = [] then []
      else str ''  <ul>'' @ nl @ concat (map task_item (direct_tasks s)) @ str ''  </ul>'' @ nl)"

text \<open>The head of the page before and after the time stamp.\<close>

definition head_before :: "env \<Rightarrow> ustr" where
  \<open>head_before e =
     str ''<!DOCTYPE html>'' @ nl @
     str ''<html lang="en">'' @ nl @
     str ''<head>'' @ nl @
     str ''    <meta charset="UTF-8">'' @ nl @
     str ''    <meta name="viewport" content="width=device-width, initial-scale=1.0">'' @ nl @
     str ''    <title>Agile Sprint Status Report</title>'' @ nl @
     str ''    <link rel="stylesheet" href="'' @ stylesheet_href e @ str ''">'' @ nl @
     str ''</head>'' @ nl @
     str ''<body>'' @ nl @
     str ''    <header>'' @ nl @
     str ''        <h1>Adventure Jumper - Agile Sprint Status Report</h1>'' @ nl @
     str ''        <p>Generated on: ''\<close>

definition head_after :: ustr where
  "head_after = str ''</p>'' @ nl @ str ''    </header>'' @ nl @ str ''    <main>'' @ nl"

text \<open>
  The parsed example plan; a microversion with two of three tasks Complete, one with its
  only task Complete, and a sprint of these two.
\<close>

definition example_microversion :: microversion where
  "example_microversion =
     \<lparr>mv_title = str ''v0.1.0.0 - Setup'',
      tasks = [\<lparr>task_id = Some (str ''T1.1''), description = str ''Do thing'', status = Complete\<rparr>,
               \<lparr>task_id = Some (str ''T1.2''), description = str ''Do other thing'',
                status = Open\<rparr>]\<rparr>"

definition example_sprint :: sprint where
  "example_sprint =
     \<lparr>title = str ''Sprint 1: Bar'', microversions = [example_microversion],
      sprint_tasks = None\<rparr>"




text \<open>
  An environment for the examples.  Its \<open>float_repr\<close> is the interpreter's \<^verbatim>\<open>repr\<close> on the
  floats of the examples: \<^verbatim>\<open>66.66666666666666\<close> for \<^verbatim>\<open>2 / 3 * 100\<close>, and one decimal place
  for \<^verbatim>\<open>50.0\<close> and \<^verbatim>\<open>75.0\<close>.
\<close>

definition example_repr :: "rat \<Rightarrow> ustr" where
  "example_repr x =
     (if x = to_double (to_double (2 / 3) * 100) then str ''66.66666666666666'' else fixed1 x)"

definition example_env :: env where
  "example_env =
     \<lparr>stylesheet_href = str ''../../scripts/report_style.css'',
      generated_on = str ''2025-06-01 12:00:00'', float_repr = example_repr\<rparr>"

section \<open>Lemmas\<close>

lemma reaches_refl: "\<forall>m. \<not> sets r m \<Longrightarrow> reaches r cp s cp s"
  by (simp add: reaches_def)

lemma rmatch_sound:
  "rmatch n0 r k cp s = Some res \<Longrightarrow> \<exists>cp' s'. k cp' s' = Some res \<and> reaches r cp s cp' s'"
proof (induction n0 r k cp s arbitrary: res rule: rmatch.induct)
  case (1 n0 k cp s)
  then show ?case by (auto simp: reaches_def)
next
  case (2 n0 w k cp s)
  then have w: "starts_with s w" and k: "k cp (drop (length w) s) = Some res"
    by (auto split: if_splits)
  have "s = take (length w) s @ drop (length w) s" by simp
  then have "reaches (Lit w) cp s cp (drop (length w) s)"
    unfolding reaches_def by (metis groups.simps(7) sets.simps(5))
  with k show ?case by blast
next
  case (3 n0 p k cp s)
  then obtain c cs where s: "s = c # cs" and k: "k cp cs = Some res"
    by (auto split: if_splits list.splits)
  have "reaches (Cls p) cp s cp cs"
    unfolding reaches_def s by (simp add: exI[of _ "[c]"])
  with k show ?case by blast
next
  case (4 n0 k cp s)
  then show ?case by (auto simp: reaches_def split: if_splits)
next
  case (5 n0 k cp s)
  then show ?case by (auto simp: reaches_def split: if_splits)
next
  case (6 n0 a b k cp s)
  from 6(3) have "rmatch n0 a (\<lambda>cp' s'. rmatch n0 b k cp' s') cp s = Some res" by simp
  from 6(2)[OF this] obtain cp1 s1 where
    b: "rmatch n0 b k cp1 s1 = Some res" and r1: "reaches a cp s cp1 s1" by blast
  from 6(1)[OF b] obtain cp2 s2 where
    k: "k cp2 s2 = Some res" and r2: "reaches b cp1 s1 cp2 s2" by blast
  from r1 r2 have "reaches (Seq a b) cp s cp2 s2"
    unfolding reaches_def by (auto; metis)
  with k show ?case by blast
next
  case (7 n0 a b k cp s)
  show ?case
  proof (cases "rmatch n0 a k cp s")
    case None
    with 7(3) have "rmatch n0 b k cp s = Some res" by simp
    from 7(2)[OF None this] obtain cp2 s2 where
      k: "k cp2 s2 = Some res" and r: "reaches b cp s cp2 s2" by blast
    from r have "reaches (Alt a b) cp s cp2 s2" by (simp add: reaches_def)
    with k show ?thesis by blast
  next
    case (Some r)
    with 7(3) have "rmatch n0 a k cp s = Some res" by simp
    from 7(1)[OF this] obtain cp2 s2 where
      k: "k cp2 s2 = Some res" and r: "reaches a cp s cp2 s2" by blast
    from r have "reaches (Alt a b) cp s cp2 s2" by (simp add: reaches_def)
    with k show ?thesis by blast
  qed
next
  case (8 n0 a k cp s)
  let ?k = "\<lambda>cp' s'. if length s' < length s then rmatch n0 (Star a) k cp' s' else None"
  show ?case
  proof (cases "rmatch n0 a ?k cp s")
    case None
    with 8(3) have "k cp s = Some res" by simp
    moreover have "reaches (Star a) cp s cp s" by (simp add: reaches_def)
    ultimately show ?thesis by blast
  next
    case (Some r)
    with 8(3) have m: "rmatch n0 a ?k cp s = Some res" by simp
    from 8(2)[OF m] obtain cp1 s1 where
      k1: "?k cp1 s1 = Some res" and r1: "reaches a cp s cp1 s1" by blast
    from k1 have lt: "length s1 < length s" and b: "rmatch n0 (Star a) k cp1 s1 = Some res"
      by (auto split: if_splits)
    from 8(1)[OF lt b] obtain cp2 s2 where
      k: "k cp2 s2 = Some res" and r2: "reaches (Star a) cp1 s1 cp2 s2" by blast
    from r1 r2 have "reaches (Star a) cp s cp2 s2"
      unfolding reaches_def by (auto; metis)
    with k show ?thesis by blast
  qed
next
  case (9 n0 a k cp s)
  let ?k = "\<lambda>cp' s'. if length s' < length s then rmatch n0 (LazyStar a) k cp' s' else None"
  show ?case
  proof (cases "k cp s")
    case (Some r)
    with 9(3) have "k cp s = Some res" by simp
    moreover have "reaches (LazyStar a) cp s cp s" by (simp add: reaches_def)
    ultimately show ?thesis by blast
  next
    case None
    with 9(3) have m: "rmatch n0 a ?k cp s = Some res" by simp
    from 9(2)[OF None m] obtain cp1 s1 where
      k1: "?k cp1 s1 = Some res" and r1: "reaches a cp s cp1 s1" by blast
    from k1 have lt: "length s1 < length s" and b: "rmatch n0 (LazyStar a) k cp1 s1 = Some res"
      by (auto split: if_splits)
    from 9(1)[OF None lt b] obtain cp2 s2 where
      k: "k cp2 s2 = Some res" and r2: "reaches (LazyStar a) cp1 s1 cp2 s2" by blast
    from r1 r2 have "reaches (LazyStar a) cp s cp2 s2"
      unfolding reaches_def by (auto; metis)
    with k show ?thesis by blast
  qed
next
  case (10 n0 a k cp s)
  show ?case
  proof (cases "rmatch n0 a k cp s")
    case None
    with 10(2) have "k cp s = Some res" by simp
    moreover have "reaches (Opt a) cp s cp s" by (simp add: reaches_def)
    ultimately show ?thesis by blast
  next
    case (Some r)
    with 10(2) have "rmatch n0 a k cp s = Some res" by simp
    from 10(1)[OF this] obtain cp2 s2 where
      k: "k cp2 s2 = Some res" and r: "reaches a cp s cp2 s2" by blast
    from r have "reaches (Opt a) cp s cp2 s2" by (simp add: reaches_def)
    with k show ?thesis by blast
  qed
next
  case (11 n0 n a k cp s)
  let ?k = "\<lambda>cp' s'. k (cp'(n \<mapsto> take (length s - length s') s)) s'"
  from 11(2) have "rmatch n0 a ?k cp s = Some res" by simp
  from 11(1)[OF this] obtain cp1 s1 where
    k1: "?k cp1 s1 = Some res" and r1: "reaches a cp s cp1 s1" by blast
  from r1 have "reaches (Grp n a) cp s (cp1(n \<mapsto> take (length s - length s1) s)) s1"
    unfolding reaches_def by auto
  with k1 show ?case by blast
qed

lemma re_match_sets: "re_match r l = Some m \<Longrightarrow> sets r n \<Longrightarrow> m n \<noteq> None"
  unfolding re_match_def by (drule rmatch_sound) (auto simp: reaches_def)

lemma length_str [simp]: "length (str cs) = length cs"
  by (simp add: str_def)

lemma starts_with_Nil [simp]: "starts_with s []"
  by (simp add: starts_with_def)

lemma starts_with_Cons [simp]: "starts_with s (x # xs) \<longleftrightarrow> (\<exists>t. s = x # t \<and> starts_with t xs)"
  by (cases s) (auto simp: starts_with_def)

lemma epic_prefix: "re_match (epic_re dg) l \<noteq> None \<Longrightarrow> starts_with l (str ''## '')"
  by (auto simp: re_match_def epic_re_def split: if_splits)

lemma sprint_prefix: "re_match (sprint_re dg) l \<noteq> None \<Longrightarrow> starts_with l (str ''### **'')"
  by (auto simp: re_match_def sprint_re_def split: if_splits)

lemma microversion_prefix:
  "re_match (microversion_re dg) l \<noteq> None \<Longrightarrow> starts_with l (str ''##### **v'')"
  by (auto simp: re_match_def microversion_re_def split: if_splits)

lemma task_prefix: "re_match (task_re dg) l \<noteq> None \<Longrightarrow> starts_with l (str ''- ['')"
  by (auto simp: re_match_def task_re_def split: if_splits)

lemma prefixes_disjoint:
  "starts_with l (str ''## '') \<Longrightarrow> \<not> starts_with l (str ''### **'')"
  "starts_with l (str ''## '') \<Longrightarrow> \<not> starts_with l (str ''##### **v'')"
  "starts_with l (str ''## '') \<Longrightarrow> \<not> starts_with l (str ''- ['')"
  "starts_with l (str ''### **'') \<Longrightarrow> \<not> starts_with l (str ''##### **v'')"
  "starts_with l (str ''### **'') \<Longrightarrow> \<not> starts_with l (str ''- ['')"
  "starts_with l (str ''##### **v'') \<Longrightarrow> \<not> starts_with l (str ''- ['')"
  by (auto simp: str_def)

lemma epic_sets: "sets (epic_re dg) 1" by (simp add: epic_re_def)

lemma sprint_sets: "sets (sprint_re dg) 1" by (simp add: sprint_re_def)

lemma microversion_sets: "sets (microversion_re dg) 1" "sets (microversion_re dg) 2"
  by (simp_all add: microversion_re_def)

lemma task_sets: "sets (task_re dg) 1" "sets (task_re dg) 2" "sets (task_re dg) 3"
  by (simp_all add: task_re_def)

lemma header_exclusive:
  "re_match (epic_re dg) l \<noteq> None \<Longrightarrow>
     re_match (sprint_re dg) l = None \<and> re_match (microversion_re dg) l = None \<and>
     re_match (task_re dg) l = None"
  "re_match (sprint_re dg) l \<noteq> None \<Longrightarrow>
     re_match (epic_re dg) l = None \<and> re_match (microversion_re dg) l = None \<and>
     re_match (task_re dg) l = None"
  "re_match (microversion_re dg) l \<noteq> None \<Longrightarrow>
     re_match (epic_re dg) l = None \<and> re_match (sprint_re dg) l = None \<and>
     re_match (task_re dg) l = None"
  "re_match (task_re dg) l \<noteq> None \<Longrightarrow>
     re_match (epic_re dg) l = None \<and> re_match (sprint_re dg) l = None \<and>
     re_match (microversion_re dg) l = None"
  using epic_prefix[of dg l] sprint_prefix[of dg l] microversion_prefix[of dg l]
    task_prefix[of dg l] prefixes_disjoint[of l]
  by (metis option.distinct(1) not_None_eq)+

lemma step_ignored:
  assumes "re_match (epic_re dg) l = None" and "re_match (sprint_re dg) l = None"
    and "re_match (microversion_re dg) l = None \<or> current_sprint st = None"
    and "re_match (task_re dg) l = None \<or> current_microversion st = None"
  shows "step dg st l = Inr st"
proof -
  have "\<not> (re_match (microversion_re dg) l \<noteq> None \<and> current_sprint st \<noteq> None)"
    using assms(3) by auto
  moreover have "\<not> (re_match (task_re dg) l \<noteq> None \<and> current_microversion st \<noteq> None)"
    using assms(4) by auto
  ultimately show ?thesis
    unfolding step_def Let_def using assms(1,2) by (simp only: if_False not_None_eq simp_thms)
qed

lemma step_epic:
  assumes "re_match (epic_re dg) l = Some m"
  shows "\<exists>g. m 1 = Some g \<and>
           step dg st l =
             Inr \<lparr>sprints = close_sprint st,
                  current_sprint = Some \<lparr>title = strip g, microversions = [], sprint_tasks = None\<rparr>,
                  current_microversion = None\<rparr>"
proof -
  from re_match_sets[OF assms epic_sets] obtain g where g: "m 1 = Some g" by blast
  show ?thesis
    using assms g by (simp add: step_def Let_def group_def strip_of_def bindE_def)
qed

lemma step_sprint:
  assumes "re_match (sprint_re dg) l = Some m"
  shows "\<exists>g. m 1 = Some g \<and>
           step dg st l =
             Inr \<lparr>sprints = close_sprint st,
                  current_sprint = Some \<lparr>title = strip g, microversions = [], sprint_tasks = None\<rparr>,
                  current_microversion = None\<rparr>"
proof -
  from re_match_sets[OF assms sprint_sets] obtain g where g: "m 1 = Some g" by blast
  from assms header_exclusive(2)[of dg l] have "re_match (epic_re dg) l = None" by simp
  then show ?thesis
    using assms g by (simp add: step_def Let_def group_def strip_of_def bindE_def)
qed

lemma step_microversion:
  assumes "re_match (microversion_re dg) l = Some m" and "current_sprint st = Some cs"
  shows "\<exists>g1 g2. m 1 = Some g1 \<and> m 2 = Some g2 \<and>
           step dg st l =
             Inr \<lparr>sprints = sprints st,
                  current_sprint =
                    Some (case current_microversion st of None \<Rightarrow> cs
                          | Some cm \<Rightarrow> cs\<lparr>microversions := microversions cs @ [cm]\<rparr>),
                  current_microversion =
                    Some \<lparr>mv_title = str ''v'' @ g1 @ str '' - '' @ strip g2, tasks = []\<rparr>\<rparr>"
proof -
  from re_match_sets[OF assms(1) microversion_sets(1)] obtain g1 where g1: "m 1 = Some g1" by blast
  from re_match_sets[OF assms(1) microversion_sets(2)] obtain g2 where g2: "m 2 = Some g2" by blast
  from assms(1) header_exclusive(3)[of dg l]
  have "re_match (epic_re dg) l = None" "re_match (sprint_re dg) l = None" by simp_all
  then show ?thesis
    using assms g1 g2
    by (simp add: step_def Let_def group_def strip_of_def bindE_def append_microversion_def
          format_str_def split: option.splits)
qed

lemma step_task:
  assumes "re_match (task_re dg) l = Some m" and "current_microversion st = Some mv"
  shows "\<exists>g1 g2 g3. m 1 = Some g1 \<and> m 2 = Some g2 \<and> m 3 = Some g3 \<and>
           step dg st l =
             Inr (st\<lparr>current_microversion :=
                    Some (mv\<lparr>tasks := tasks mv @
                      [\<lparr>task_id = Some g2, description = strip g3,
                        status = (if g1 = str ''x'' \<or> g1 = check_mark then Complete else Open)\<rparr>]\<rparr>)\<rparr>)"
proof -
  from re_match_sets[OF assms(1) task_sets(1)] obtain g1 where g1: "m 1 = Some g1" by blast
  from re_match_sets[OF assms(1) task_sets(2)] obtain g2 where g2: "m 2 = Some g2" by blast
  from re_match_sets[OF assms(1) task_sets(3)] obtain g3 where g3: "m 3 = Some g3" by blast
  from assms(1) header_exclusive(4)[of dg l]
  have "re_match (epic_re dg) l = None" "re_match (sprint_re dg) l = None"
    "re_match (microversion_re dg) l = None" by simp_all
  then show ?thesis
    using assms g1 g2 g3
    by (simp add: step_def Let_def group_def strip_of_def bindE_def append_task_def)
qed

lemma step_total: "\<exists>st'. step dg st l = Inr st'"
proof (cases "re_match (epic_re dg) l")
  case (Some m)
  from step_epic[OF this] show ?thesis by auto
next
  case e: None
  show ?thesis
  proof (cases "re_match (sprint_re dg) l")
    case (Some m)
    from step_sprint[OF this] show ?thesis by auto
  next
    case s: None
    show ?thesis
    proof (cases "re_match (microversion_re dg) l")
      case (Some m)
      show ?thesis
      proof (cases "current_sprint st")
        case None
        from \<open>re_match (microversion_re dg) l = Some m\<close> header_exclusive(3)[of dg l]
        have "re_match (task_re dg) l = None" by simp
        with e s None show ?thesis by (simp add: step_ignored)
      next
        case (Some cs)
        from step_microversion[OF \<open>re_match (microversion_re dg) l = Some m\<close> this]
        show ?thesis by auto
      qed
    next
      case v: None
      show ?thesis
      proof (cases "re_match (task_re dg) l")
        case None
        with e s v show ?thesis by (simp add: step_ignored)
      next
        case (Some m)
        show ?thesis
        proof (cases "current_microversion st")
          case None
          with e s v show ?thesis by (simp add: step_ignored)
        next
          case (Some mv)
          from step_task[OF \<open>re_match (task_re dg) l = Some m\<close> this] show ?thesis by auto
        qed
      qed
    qed
  qed
qed

lemma scan_total: "\<exists>st'. scan dg st ls = Inr st'"
proof (induction ls arbitrary: st)
  case Nil
  show ?case by simp
next
  case (Cons l ls)
  from step_total obtain st1 where "step dg st l = Inr st1" by blast
  with Cons[of st1] show ?case by simp
qed

lemma scan_append:
  "scan dg st (xs @ ys) = (case scan dg st xs of Inl e \<Rightarrow> Inl e | Inr st' \<Rightarrow> scan dg st' ys)"
  by (induction xs arbitrary: st) (auto split: sum.splits)

lemma rmatch_lazy_cls:
  "rmatch n0 (LazyStar (Cls p)) k cp s = Some res \<Longrightarrow>
     \<exists>i\<le>length s. k cp (drop i s) = Some res \<and> (\<forall>j<i. k cp (drop j s) = None \<and> p (s ! j))"
proof (induction s)
  case Nil
  then have "k cp [] = Some res" by (simp split: option.splits)
  then show ?case by simp
next
  case (Cons c cs)
  show ?case
  proof (cases "k cp (c # cs)")
    case (Some r)
    with Cons.prems have "k cp (drop 0 (c # cs)) = Some res" by simp
    then show ?thesis by blast
  next
    case None
    with Cons.prems have pc: "p c" and m: "rmatch n0 (LazyStar (Cls p)) k cp cs = Some res"
      by (auto split: if_splits)
    from Cons.IH[OF m] obtain i where i: "i \<le> length cs" "k cp (drop i cs) = Some res"
      "\<forall>j<i. k cp (drop j cs) = None \<and> p (cs ! j)" by blast
    have "\<forall>j<Suc i. k cp (drop j (c # cs)) = None \<and> p ((c # cs) ! j)"
    proof (intro allI impI)
      fix j assume "j < Suc i"
      then show "k cp (drop j (c # cs)) = None \<and> p ((c # cs) ! j)"
        using None pc i(3) by (cases j) auto
    qed
    with i(1,2) show ?thesis by (intro exI[of _ "Suc i"]) simp
  qed
qed

lemma rmatch_markers:
  "rmatch n0 (alts markers) (\<lambda>cp s'. Some cp) cp s = (if at_marker s then Some cp else None)"
  by (simp add: markers_def marker_words_def at_marker_def)

lemma desc_end_least:
  "i \<le> length s \<Longrightarrow> at_marker (drop i s) \<Longrightarrow> \<forall>j<i. \<not> at_marker (drop j s) \<Longrightarrow> desc_end s = i"
proof (induction s arbitrary: i)
  case Nil
  then show ?case by simp
next
  case (Cons c cs)
  show ?case
  proof (cases i)
    case 0
    with Cons.prems show ?thesis by simp
  next
    case (Suc i')
    with Cons.prems have "\<not> at_marker (c # cs)" by (metis drop0 zero_less_Suc)
    moreover have "desc_end cs = i'"
    proof (rule Cons.IH)
      show "i' \<le> length cs" using Cons.prems(1) Suc by simp
      show "at_marker (drop i' cs)" using Cons.prems(2) Suc by simp
      show "\<forall>j<i'. \<not> at_marker (drop j cs)"
        using Cons.prems(3) Suc by (metis Suc_mono drop_Suc_Cons)
    qed
    ultimately show ?thesis using Suc by simp
  qed
qed

lemma rmatch_Lit_Seq:
  "rmatch n0 (Seq (Lit w) r) k cp s = Some res \<Longrightarrow>
     \<exists>t. s = w @ t \<and> rmatch n0 r k cp t = Some res"
proof -
  assume a: "rmatch n0 (Seq (Lit w) r) k cp s = Some res"
  then have w: "starts_with s w" and r: "rmatch n0 r k cp (drop (length w) s) = Some res"
    by (auto split: if_splits)
  from w have "s = w @ drop (length w) s"
    by (metis append_take_drop_id starts_with_def)
  with r show ?thesis by blast
qed

lemma rmatch_Grp_Seq:
  assumes "rmatch n0 (Seq (Grp n a) r) k cp s = Some res" and "groups a = {}"
  shows "\<exists>p t. s = p @ t \<and> rmatch n0 r k (cp(n \<mapsto> p)) t = Some res"
proof -
  let ?k = "\<lambda>cp' s'. rmatch n0 r k (cp'(n \<mapsto> take (length s - length s') s)) s'"
  from assms(1) have "rmatch n0 a ?k cp s = Some res" by simp
  from rmatch_sound[OF this] obtain cp' s' where
    k: "?k cp' s' = Some res" and r: "reaches a cp s cp' s'" by blast
  from r assms(2) obtain p where p: "s = p @ s'" and "\<forall>m. cp' m = cp m"
    by (auto simp: reaches_def)
  then have "cp' = cp" by auto
  with k p have "rmatch n0 r k (cp(n \<mapsto> p)) s' = Some res" by simp
  with p show ?thesis by blast
qed

lemma rmatch_checkbox:
  assumes "rmatch n0 (Seq (Grp n (alts [Lit (str ''x''), Lit (str '' ''), Lit check_mark])) r)
             k cp s = Some res"
  shows "\<exists>ch t. s = ch # t \<and> (ch = 120 \<or> ch = 32 \<or> ch = 9989) \<and>
           rmatch n0 r k (cp(n \<mapsto> [ch])) t = Some res"
  using assms
  by (cases s) (auto simp: str_def check_mark_def split: option.splits if_splits)

lemma rmatch_description:
  assumes "rmatch n0 (Seq (Grp n (LazyStar (Cls p))) (alts markers)) (\<lambda>cp s'. Some cp) cp s
             = Some res"
  shows "res = cp(n \<mapsto> take (desc_end s) s)"
proof -
  let ?k = "\<lambda>cp' s'. rmatch n0 (alts markers) (\<lambda>cp s'. Some cp)
                   (cp'(n \<mapsto> take (length s - length s') s)) s'"
  from assms have "rmatch n0 (LazyStar (Cls p)) ?k cp s = Some res" by simp
  from rmatch_lazy_cls[OF this] obtain i where i: "i \<le> length s"
    and k: "?k cp (drop i s) = Some res"
    and least: "\<forall>j<i. ?k cp (drop j s) = None \<and> p (s ! j)" by blast
  from k have am: "at_marker (drop i s)" and res: "res = cp(n \<mapsto> take i s)"
    using i by (auto simp: rmatch_markers split: if_splits)
  from least have "\<forall>j<i. \<not> at_marker (drop j s)"
    by (auto simp: rmatch_markers split: if_splits)
  from desc_end_least[OF i am this] res show ?thesis by simp
qed

lemma task_match_shape:
  assumes "re_match (task_re dg) l = Some m"
  shows "\<exists>ch tid rest.
           l = str ''- ['' @ [ch] @ str ''] **'' @ tid @ str ''**: '' @ rest \<and>
           (ch = 120 \<or> ch = 32 \<or> ch = 9989) \<and>
           m 1 = Some [ch] \<and> m 2 = Some tid \<and> m 3 = Some (take (desc_end rest) rest)"
proof -
  let ?fin = "\<lambda>(cp::caps) (s'::ustr). Some cp"
  let ?id = "seqs [Plus (Cls upper), Plus (Cls dg), Star (Seq (Lit (str ''.'')) (Plus (Cls dg)))]"
  let ?r4 = "Seq (Grp 3 (LazyStar (Cls any_char))) (alts markers)"
  let ?r3 = "Seq (Lit (str ''**: '')) ?r4"
  let ?r2 = "Seq (Grp 2 ?id) ?r3"
  let ?r1 = "Seq (Lit (str ''] **'')) ?r2"
  let ?r0 = "Seq (Grp 1 (alts [Lit (str ''x''), Lit (str '' ''), Lit check_mark])) ?r1"
  from assms have "rmatch (length l) (Seq (Lit (str ''- ['')) ?r0) ?fin Map.empty l = Some m"
    by (simp add: re_match_def task_re_def split: if_splits)
  from rmatch_Lit_Seq[OF this] obtain t0 where
    l0: "l = str ''- ['' @ t0" and m0: "rmatch (length l) ?r0 ?fin Map.empty t0 = Some m" by blast
  from rmatch_checkbox[OF m0] obtain ch t1 where
    l1: "t0 = ch # t1" and ch: "ch = 120 \<or> ch = 32 \<or> ch = 9989"
    and m1: "rmatch (length l) ?r1 ?fin (Map.empty(1 \<mapsto> [ch])) t1 = Some m" by blast
  from rmatch_Lit_Seq[OF m1] obtain t2 where
    l2: "t1 = str ''] **'' @ t2"
    and m2: "rmatch (length l) ?r2 ?fin (Map.empty(1 \<mapsto> [ch])) t2 = Some m" by blast
  have "groups ?id = {}" by (simp add: Plus_def)
  from rmatch_Grp_Seq[OF m2 this] obtain tid t3 where
    l3: "t2 = tid @ t3"
    and m3: "rmatch (length l) ?r3 ?fin (Map.empty(1 \<mapsto> [ch], 2 \<mapsto> tid)) t3 = Some m" by blast
  from rmatch_Lit_Seq[OF m3] obtain rest where
    l4: "t3 = str ''**: '' @ rest"
    and m4: "rmatch (length l) ?r4 ?fin (Map.empty(1 \<mapsto> [ch], 2 \<mapsto> tid)) rest = Some m" by blast
  from rmatch_description[OF m4]
  have m: "m = Map.empty(1 \<mapsto> [ch], 2 \<mapsto> tid, 3 \<mapsto> take (desc_end rest) rest)" .
  have "l = str ''- ['' @ [ch] @ str ''] **'' @ tid @ str ''**: '' @ rest"
    using l0 l1 l2 l3 l4 by simp
  moreover have "m 1 = Some [ch]" "m 2 = Some tid" "m 3 = Some (take (desc_end rest) rest)"
    by (simp_all add: m)
  ultimately show ?thesis using ch by blast
qed

lemma scan_Cons_Inr: "step dg st l = Inr st1 \<Longrightarrow> scan dg st (l # ls) = scan dg st1 ls"
  by simp

lemma finish_eq:
  "(current_microversion st \<noteq> None \<longrightarrow> current_sprint st \<noteq> None) \<Longrightarrow>
   finish st =
     Inr (case current_sprint st of
            None \<Rightarrow> sprints st
          | Some cs \<Rightarrow> sprints st @
              [case current_microversion st of
                 None \<Rightarrow> cs
               | Some cm \<Rightarrow> cs\<lparr>microversions := microversions cs @ [cm]\<rparr>])"
  by (auto simp: finish_def bindE_def close_sprint_def append_microversion_def
        split: option.splits)

lemma step_outcome:
  "(\<exists>t. step dg st l =
         Inr \<lparr>sprints = close_sprint st,
              current_sprint = Some \<lparr>title = t, microversions = [], sprint_tasks = None\<rparr>,
              current_microversion = None\<rparr>) \<or>
   (\<exists>cs t. current_sprint st = Some cs \<and>
      step dg st l =
         Inr \<lparr>sprints = sprints st,
              current_sprint =
                Some (case current_microversion st of None \<Rightarrow> cs
                      | Some cm \<Rightarrow> cs\<lparr>microversions := microversions cs @ [cm]\<rparr>),
              current_microversion = Some \<lparr>mv_title = t, tasks = []\<rparr>\<rparr>) \<or>
   (\<exists>mv t. current_microversion st = Some mv \<and>
      step dg st l = Inr (st\<lparr>current_microversion := Some (mv\<lparr>tasks := tasks mv @ [t]\<rparr>)\<rparr>)) \<or>
   step dg st l = Inr st"
proof (cases "re_match (epic_re dg) l")
  case (Some m)
  from step_epic[OF this, of st] show ?thesis by auto
next
  case e: None
  show ?thesis
  proof (cases "re_match (sprint_re dg) l")
    case (Some m)
    from step_sprint[OF this, of st] show ?thesis by auto
  next
    case s: None
    show ?thesis
    proof (cases "re_match (microversion_re dg) l")
      case (Some m)
      note mv = this
      show ?thesis
      proof (cases "current_sprint st")
        case None
        from mv header_exclusive(3)[of dg l]
        have "re_match (task_re dg) l = None" by simp
        with e s None show ?thesis by (simp add: step_ignored)
      next
        case (Some cs)
        from step_microversion[OF mv this] show ?thesis using Some by auto
      qed
    next
      case v: None
      show ?thesis
      proof (cases "re_match (task_re dg) l")
        case None
        with e s v show ?thesis by (simp add: step_ignored)
      next
        case (Some m)
        note tm = this
        show ?thesis
        proof (cases "current_microversion st")
          case None
          with e s v show ?thesis by (simp add: step_ignored)
        next
          case (Some mv)
          from step_task[OF tm this] show ?thesis using Some by auto
        qed
      qed
    qed
  qed
qed

lemma step_mv_inside: "mv_inside st \<Longrightarrow> step dg st l = Inr st1 \<Longrightarrow> mv_inside st1"
  using step_outcome[of dg st l] by (auto simp: mv_inside_def)

lemma scan_mv_inside: "mv_inside st \<Longrightarrow> scan dg st ls = Inr st1 \<Longrightarrow> mv_inside st1"
proof (induction ls arbitrary: st)
  case Nil
  then show ?case by simp
next
  case (Cons l ls)
  from step_total obtain st2 where s: "step dg st l = Inr st2" by blast
  with Cons.prems(2) have "scan dg st2 ls = Inr st1" by simp
  with Cons.IH[OF step_mv_inside[OF Cons.prems(1) s]] show ?case .
qed

lemma init_mv_inside: "mv_inside init_state"
  by (simp add: mv_inside_def init_state_def)

lemma parse_lines_total: "\<exists>r. parse_lines dg ls = Inr r"
proof -
  from scan_total obtain st where s: "scan dg init_state ls = Inr st" by blast
  from scan_mv_inside[OF init_mv_inside s] have "mv_inside st" .
  then have "\<exists>r. finish st = Inr r" by (simp add: finish_eq mv_inside_def)
  with s show ?thesis by (simp add: parse_lines_def bindE_def)
qed

lemma parse_lines_skip:
  assumes "scan dg init_state pre = Inr st" and "step dg st l = Inr st"
  shows "parse_lines dg (pre @ l # post) = parse_lines dg (pre @ post)"
  using assms by (simp add: parse_lines_def scan_append)

lemma scan_ignored:
  assumes "\<forall>l\<in>set ls. step dg st l = Inr st"
  shows "scan dg st ls = Inr st"
  using assms by (induction ls) auto


lemma finish_open_sprint:
  assumes "current_sprint st = Some cs" and "finish st = Inr r"
  shows "\<exists>M. r = sprints st @ [cs\<lparr>microversions := microversions cs @ M\<rparr>]"
proof (cases "current_microversion st")
  case None
  with assms have "r = sprints st @ [cs\<lparr>microversions := microversions cs @ []\<rparr>]"
    by (simp add: finish_def bindE_def close_sprint_def)
  then show ?thesis by blast
next
  case (Some cm)
  with assms have "r = sprints st @ [cs\<lparr>microversions := microversions cs @ [cm]\<rparr>]"
    by (simp add: finish_def bindE_def close_sprint_def append_microversion_def)
  then show ?thesis by blast
qed

lemma tail_keeps_open_sprint:
  assumes "current_sprint st = Some cs" and "scan dg st ls = Inr st'" and "finish st' = Inr r"
  shows "\<exists>M B. r = sprints st @ [cs\<lparr>microversions := microversions cs @ M\<rparr>] @ B"
  using assms
proof (induction ls arbitrary: st cs)
  case Nil
  then have "finish st = Inr r" by simp
  from finish_open_sprint[OF Nil.prems(1) this] obtain M where
    "r = sprints st @ [cs\<lparr>microversions := microversions cs @ M\<rparr>] @ []" by auto
  then show ?case by blast
next
  case (Cons l ls)
  from step_total obtain st1 where s1: "step dg st l = Inr st1" by blast
  with Cons.prems(2) have sc: "scan dg st1 ls = Inr st'" by simp
  have "\<exists>F G cs1. current_sprint st1 = Some cs1 \<and>
          (\<forall>M B. sprints st1 @ [cs1\<lparr>microversions := microversions cs1 @ M\<rparr>] @ B =
             sprints st @ [cs\<lparr>microversions := microversions cs @ F M\<rparr>] @ G M B)"
    using step_outcome[of dg st l]
  proof (elim disjE exE conjE, goal_cases)
    case (1 t)
    with s1 have st1: "st1 = \<lparr>sprints = close_sprint st,
        current_sprint = Some \<lparr>title = t, microversions = [], sprint_tasks = None\<rparr>,
        current_microversion = None\<rparr>" by simp
    show ?case
      by (intro exI[of _ "\<lambda>M. []"]
            exI[of _ "\<lambda>M B. [\<lparr>title = t, microversions = M, sprint_tasks = None\<rparr>] @ B"]
            exI[of _ "\<lparr>title = t, microversions = [], sprint_tasks = None\<rparr>"])
         (simp add: st1 close_sprint_def Cons.prems(1))
  next
    case (2 cs' t)
    with s1 Cons.prems(1) have cs': "cs' = cs"
      and sp: "sprints st1 = sprints st"
      and cur: "current_sprint st1 =
        Some (case current_microversion st of None \<Rightarrow> cs
              | Some cm \<Rightarrow> cs\<lparr>microversions := microversions cs @ [cm]\<rparr>)"
      by auto
    show ?case
    proof (cases "current_microversion st")
      case None
      with cur sp show ?thesis
        by (intro exI[of _ "\<lambda>M. M"] exI[of _ "\<lambda>M B. B"]
              exI[of _ cs]) simp
    next
      case (Some cm)
      with cur sp show ?thesis
        by (intro exI[of _ "\<lambda>M. [cm] @ M"] exI[of _ "\<lambda>M B. B"]
              exI[of _ "cs\<lparr>microversions := microversions cs @ [cm]\<rparr>"]) simp
    qed
  next
    case (3 mv t)
    with s1 have "st1 = st\<lparr>current_microversion := Some (mv\<lparr>tasks := tasks mv @ [t]\<rparr>)\<rparr>" by simp
    with Cons.prems(1) show ?case
      by (intro exI[of _ "\<lambda>M. M"] exI[of _ "\<lambda>M B. B"]
            exI[of _ cs]) simp
  next
    case 4
    with s1 have "st1 = st" by simp
    with Cons.prems(1) show ?case
      by (intro exI[of _ "\<lambda>M. M"] exI[of _ "\<lambda>M B. B"]
            exI[of _ cs]) simp
  qed
  then obtain F G cs1 where cur: "current_sprint st1 = Some cs1"
    and eq: "\<And>M B. sprints st1 @ [cs1\<lparr>microversions := microversions cs1 @ M\<rparr>] @ B =
             sprints st @ [cs\<lparr>microversions := microversions cs @ F M\<rparr>] @ G M B" by blast
  from Cons.IH[OF cur sc Cons.prems(3)] obtain M B where
    "r = sprints st1 @ [cs1\<lparr>microversions := microversions cs1 @ M\<rparr>] @ B" by blast
  with eq have "r = sprints st @ [cs\<lparr>microversions := microversions cs @ F M\<rparr>] @ G M B" by simp
  then show ?case by blast
qed

lemmas line_defs = line_epic_def line_sprint_def line_sprint2_def line_microversion_def
  line_task_done_def line_task_open_def line_task_glued_def line_notes_def

lemmas re_defs = re_match_def epic_re_def sprint_re_def microversion_re_def task_re_def
  str_def Plus_def markers_def marker_words_def check_mark_def upper_def lower_def colon_def
  ascii_digit_def any_char_def

lemma splitlines_from_line:
  "\<forall>c\<in>set l. \<not> is_linebreak c \<Longrightarrow>
     splitlines_from cur (l @ 10 # rest) = (cur @ l) # splitlines_from [] rest"
proof (induction l arbitrary: cur)
  case Nil
  show ?case by (simp add: is_linebreak_def)
next
  case (Cons c l)
  then have c: "\<not> is_linebreak c" and l: "\<forall>c\<in>set l. \<not> is_linebreak c" by simp_all
  from c have "c \<noteq> 13" by (auto simp: is_linebreak_def)
  with c Cons.IH[OF l, of "cur @ [c]"] show ?case by simp
qed

lemma splitlines_join_lines:
  "\<forall>l\<in>set ls. \<forall>c\<in>set l. \<not> is_linebreak c \<Longrightarrow> splitlines (join_lines ls) = ls"
proof -
  assume a: "\<forall>l\<in>set ls. \<forall>c\<in>set l. \<not> is_linebreak c"
  then have "splitlines_from [] (join_lines ls) = ls"
    by (induction ls) (simp_all add: join_lines_def splitlines_from_line)
  then show ?thesis by (simp add: splitlines_def)
qed

lemma no_linebreaks:
  "\<forall>c\<in>set line_epic. \<not> is_linebreak c" "\<forall>c\<in>set line_sprint. \<not> is_linebreak c"
  "\<forall>c\<in>set line_sprint2. \<not> is_linebreak c" "\<forall>c\<in>set line_microversion. \<not> is_linebreak c"
  "\<forall>c\<in>set line_task_done. \<not> is_linebreak c" "\<forall>c\<in>set line_task_open. \<not> is_linebreak c"
  "\<forall>c\<in>set line_task_glued. \<not> is_linebreak c" "\<forall>c\<in>set line_notes. \<not> is_linebreak c"
  by (simp_all add: line_defs str_def is_linebreak_def)

lemma match_line_epic:
  "re_match (epic_re ascii_digit) line_epic = Some (Map.empty(1 \<mapsto> str ''Epic 1: Foo''))"
  by (simp add: line_defs re_defs)

lemma match_line_sprint:
  "re_match (sprint_re ascii_digit) line_sprint = Some (Map.empty(1 \<mapsto> str ''Sprint 1: Bar''))"
  by (simp add: line_defs re_defs)

lemma match_line_sprint2:
  "re_match (sprint_re ascii_digit) line_sprint2 = Some (Map.empty(1 \<mapsto> str ''Sprint 2: Baz''))"
  by (simp add: line_defs re_defs)

lemma match_line_microversion:
  "re_match (microversion_re ascii_digit) line_microversion =
     Some (Map.empty(1 \<mapsto> str ''0.1.0.0'', 2 \<mapsto> str ''Setup''))"
  by (simp add: line_defs re_defs)

lemma match_line_task_done:
  "re_match (task_re ascii_digit) line_task_done =
     Some (Map.empty(1 \<mapsto> str ''x'', 2 \<mapsto> str ''T1.1'', 3 \<mapsto> str ''Do thing''))"
  by (simp add: line_defs re_defs)

lemma match_line_task_open:
  "re_match (task_re ascii_digit) line_task_open =
     Some (Map.empty(1 \<mapsto> str '' '', 2 \<mapsto> str ''T1.2'', 3 \<mapsto> str ''Do other thing''))"
  by (simp add: line_defs re_defs)

lemma match_line_task_glued:
  "re_match (task_re ascii_digit) line_task_glued =
     Some (Map.empty(1 \<mapsto> str '' '', 2 \<mapsto> str ''T1'', 3 \<mapsto> str ''fix- **Effort**: 2h''))"
  by (simp add: line_defs re_defs)

lemma strip_examples:
  "strip (str ''Epic 1: Foo'') = str ''Epic 1: Foo''"
  "strip (str ''Sprint 1: Bar'') = str ''Sprint 1: Bar''"
  "strip (str ''Sprint 2: Baz'') = str ''Sprint 2: Baz''"
  "strip (str ''Setup'') = str ''Setup''"
  "strip (str ''Do thing'') = str ''Do thing''"
  "strip (str ''Do other thing'') = str ''Do other thing''"
  "strip (str ''fix- **Effort**: 2h'') = str ''fix- **Effort**: 2h''"
  by (simp_all add: strip_def str_def is_space_def)

lemma step_line_epic:
  "step ascii_digit st line_epic =
     Inr \<lparr>sprints = close_sprint st,
          current_sprint = Some \<lparr>title = str ''Epic 1: Foo'', microversions = [], sprint_tasks = None\<rparr>,
          current_microversion = None\<rparr>"
  using step_epic[OF match_line_epic, of st] by (simp add: strip_examples)

lemma step_line_sprint:
  "step ascii_digit st line_sprint =
     Inr \<lparr>sprints = close_sprint st,
          current_sprint = Some \<lparr>title = str ''Sprint 1: Bar'', microversions = [], sprint_tasks = None\<rparr>,
          current_microversion = None\<rparr>"
  using step_sprint[OF match_line_sprint, of st] by (simp add: strip_examples)

lemma step_line_sprint2:
  "step ascii_digit st line_sprint2 =
     Inr \<lparr>sprints = close_sprint st,
          current_sprint = Some \<lparr>title = str ''Sprint 2: Baz'', microversions = [], sprint_tasks = None\<rparr>,
          current_microversion = None\<rparr>"
  using step_sprint[OF match_line_sprint2, of st] by (simp add: strip_examples)

lemma step_line_microversion:
  "current_sprint st = Some cs \<Longrightarrow>
   step ascii_digit st line_microversion =
     Inr \<lparr>sprints = sprints st,
          current_sprint =
            Some (case current_microversion st of None \<Rightarrow> cs
                  | Some cm \<Rightarrow> cs\<lparr>microversions := microversions cs @ [cm]\<rparr>),
          current_microversion = Some \<lparr>mv_title = str ''v0.1.0.0 - Setup'', tasks = []\<rparr>\<rparr>"
  using step_microversion[OF match_line_microversion, of st cs]
  by (simp add: strip_examples) (simp add: str_def)

lemma step_line_task_done:
  "current_microversion st = Some mv \<Longrightarrow>
   step ascii_digit st line_task_done =
     Inr (st\<lparr>current_microversion :=
            Some (mv\<lparr>tasks := tasks mv @
              [\<lparr>task_id = Some (str ''T1.1''), description = str ''Do thing'',
                status = Complete\<rparr>]\<rparr>)\<rparr>)"
  using step_task[OF match_line_task_done, of st mv] by (simp add: strip_examples)

lemma step_line_task_open:
  "current_microversion st = Some mv \<Longrightarrow>
   step ascii_digit st line_task_open =
     Inr (st\<lparr>current_microversion :=
            Some (mv\<lparr>tasks := tasks mv @
              [\<lparr>task_id = Some (str ''T1.2''), description = str ''Do other thing'',
                status = Open\<rparr>]\<rparr>)\<rparr>)"
  using step_task[OF match_line_task_open, of st mv]
  by (simp add: strip_examples) (simp add: str_def check_mark_def)

lemma step_line_task_glued:
  "current_microversion st = Some mv \<Longrightarrow>
   step ascii_digit st line_task_glued =
     Inr (st\<lparr>current_microversion :=
            Some (mv\<lparr>tasks := tasks mv @
              [\<lparr>task_id = Some (str ''T1''), description = str ''fix- **Effort**: 2h'',
                status = Open\<rparr>]\<rparr>)\<rparr>)"
  using step_task[OF match_line_task_glued, of st mv]
  by (simp add: strip_examples) (simp add: str_def check_mark_def)

lemmas step_lines = step_line_epic step_line_sprint step_line_sprint2 step_line_microversion
  step_line_task_done step_line_task_open step_line_task_glued

lemma parse_example_plan:
  "parse_markdown ascii_digit example_plan =
     Inr [\<lparr>title = str ''Epic 1: Foo'', microversions = [], sprint_tasks = None\<rparr>,
          \<lparr>title = str ''Sprint 1: Bar'',
           microversions =
             [\<lparr>mv_title = str ''v0.1.0.0 - Setup'',
               tasks = [\<lparr>task_id = Some (str ''T1.1''), description = str ''Do thing'',
                         status = Complete\<rparr>,
                        \<lparr>task_id = Some (str ''T1.2''), description = str ''Do other thing'',
                         status = Open\<rparr>]\<rparr>],
           sprint_tasks = None\<rparr>]"
  by (simp add: parse_markdown_def example_plan_def splitlines_join_lines no_linebreaks
        parse_lines_def init_state_def step_lines close_sprint_def finish_def bindE_def
        append_microversion_def)

subsection \<open>Floats and the renderer\<close>

lemmas fdefs = to_double_def expo_def round_half_even_def compute_floorlog Let_def

lemma floor_rat_numeral: "\<lfloor>numeral a / numeral b :: rat\<rfloor> = numeral a div numeral b"
  by (metis floor_divide_of_int_eq of_int_numeral)

lemma ceiling_rat_numeral: "\<lceil>numeral a / numeral b :: rat\<rceil> = - ((- numeral a) div numeral b)"
  by (metis ceiling_divide_eq_div of_int_numeral)

lemmas feval = fdefs floor_rat_numeral ceiling_rat_numeral


lemma rhe_of_int [simp]: "round_half_even (of_int n) = n"
  by (simp add: round_half_even_def)


lemma rhe_mono:
  assumes "x \<le> y"
  shows "round_half_even x \<le> round_half_even y"
proof (cases "\<lfloor>x\<rfloor> = \<lfloor>y\<rfloor>")
  case True
  with assms show ?thesis
    by (auto simp: round_half_even_def Let_def)
next
  case False
  with assms have lt: "\<lfloor>x\<rfloor> < \<lfloor>y\<rfloor>" by (simp add: floor_mono order.not_eq_order_implies_strict)
  have "round_half_even x \<le> \<lfloor>x\<rfloor> + 1" by (auto simp: round_half_even_def Let_def)
  moreover have "\<lfloor>y\<rfloor> \<le> round_half_even y" by (auto simp: round_half_even_def Let_def)
  ultimately show ?thesis using lt by linarith
qed

lemma expo_ge1:
  assumes "1 \<le> q"
  shows "\<exists>L>0. expo q = int L - 1 \<and> 2 ^ (L - 1) \<le> q \<and> q < 2 ^ L"
proof -
  define n where "n = nat \<lfloor>q\<rfloor>"
  define L where "L = floorlog 2 n"
  from assms have n: "0 < n" by (simp add: n_def)
  from assms have nq: "of_nat n \<le> q" "q < of_nat n + 1"
    by (simp_all add: n_def) linarith
  from floorlog_bounds[of n 2] n have b: "2 ^ (L - 1) \<le> n" "n < 2 ^ L" by (simp_all add: L_def)
  from b(2) n have L: "0 < L" by (cases L) auto
  have e: "expo q = int L - 1" using assms by (simp add: expo_def n_def L_def)
  have "(2::rat) ^ (L - 1) = of_nat (2 ^ (L - 1))" by simp
  also have "\<dots> \<le> of_nat n" using b(1) by (simp only: of_nat_le_iff)
  finally have "(2::rat) ^ (L - 1) \<le> of_nat n" .
  with nq(1) have lo: "2 ^ (L - 1) \<le> q" by linarith
  from b(2) have "n + 1 \<le> 2 ^ L" by simp
  then have "(of_nat (n + 1) :: rat) \<le> of_nat (2 ^ L)" by (simp only: of_nat_le_iff)
  then have "of_nat n + 1 \<le> (2::rat) ^ L" by simp
  with nq(2) have hi: "q < 2 ^ L" by linarith
  from L e lo hi show ?thesis by blast
qed

lemma expo_lt1:
  assumes "0 < q" and "q < 1"
  shows "\<exists>L>0. expo q = - int L \<and> 1 / 2 ^ L \<le> q \<and> q < 1 / 2 ^ (L - 1)"
proof -
  define c where "c = \<lceil>1 / q\<rceil>"
  define n where "n = nat (c - 1)"
  define L where "L = floorlog 2 n"
  from assms have inv: "1 < 1 / q" by simp
  then have c2: "2 \<le> c" unfolding c_def by linarith
  have cq: "of_int c - 1 < 1 / q" "1 / q \<le> of_int c" unfolding c_def by linarith+
  from c2 have n: "0 < n" and nc: "int n = c - 1" by (simp_all add: n_def)
  from nc have ncr: "(of_nat n :: rat) = of_int c - 1"
    by (metis of_int_1 of_int_diff of_int_of_nat_eq)
  from floorlog_bounds[of n 2] n have b: "2 ^ (L - 1) \<le> n" "n < 2 ^ L" by (simp_all add: L_def)
  from b(2) n have L: "0 < L" by (cases L) auto
  have e: "expo q = - int L" using assms by (simp add: expo_def n_def L_def c_def)
  from b(2) have "n + 1 \<le> 2 ^ L" by simp
  then have "(of_nat (n + 1) :: rat) \<le> of_nat (2 ^ L)" by (simp only: of_nat_le_iff)
  then have "of_nat n + 1 \<le> (2::rat) ^ L" by simp
  with ncr cq(2) have "1 / q \<le> 2 ^ L" by linarith
  with assms(1) have lo: "1 / 2 ^ L \<le> q"
    by (simp add: field_simps)
  have "(2::rat) ^ (L - 1) = of_nat (2 ^ (L - 1))" by simp
  also have "\<dots> \<le> of_nat n" using b(1) by (simp only: of_nat_le_iff)
  finally have "(2::rat) ^ (L - 1) \<le> of_nat n" .
  with ncr cq(1) have "2 ^ (L - 1) < 1 / q" by linarith
  with assms(1) have hi: "q < 1 / 2 ^ (L - 1)"
    by (simp add: field_simps)
  from L e lo hi show ?thesis by blast
qed

lemma expo_bounds:
  assumes "0 < q"
  shows "2 powi (expo q) \<le> q" and "q < 2 powi (expo q + 1)"
proof -
  have "2 powi (expo q) \<le> q \<and> q < 2 powi (expo q + 1)"
  proof (cases "1 \<le> q")
    case True
    from expo_ge1[OF this] obtain L where L: "0 < L" "expo q = int L - 1"
      "2 ^ (L - 1) \<le> q" "q < 2 ^ L" by blast
    from L(1,2) have "expo q = int (L - 1)" "expo q + 1 = int L" by simp_all
    then have "2 powi (expo q) = (2::rat) ^ (L - 1)" "2 powi (expo q + 1) = (2::rat) ^ L"
      by (simp_all only: power_int_of_nat)
    with L(3,4) show ?thesis by simp
  next
    case False
    with assms have "q < 1" by simp
    from expo_lt1[OF assms this] obtain L where L: "0 < L" "expo q = - int L"
      "1 / 2 ^ L \<le> q" "q < 1 / 2 ^ (L - 1)" by blast
    from L(1,2) have "expo q + 1 = - int (L - 1)" by simp
    with L(2) have "2 powi (expo q) = 1 / (2::rat) ^ L" "2 powi (expo q + 1) = 1 / (2::rat) ^ (L - 1)"
      by (simp_all only: power_int_minus power_int_of_nat inverse_eq_divide)
    with L(3,4) show ?thesis by simp
  qed
  then show "2 powi (expo q) \<le> q" and "q < 2 powi (expo q + 1)" by simp_all
qed

lemma ulp_pos: "0 < ulp q"
  by (simp add: ulp_def)

lemma to_double_pos: "0 < q \<Longrightarrow> to_double q = of_int (round_half_even (q / ulp q)) * ulp q"
  by (simp add: to_double_def ulp_def Let_def)

lemma ulp_scale: "ulp q * 2 ^ 52 = 2 powi (expo q)" "ulp q * 2 ^ 53 = 2 powi (expo q + 1)"
proof -
  have "ulp q * 2 powi 52 = 2 powi (expo q - 52 + 52)"
    unfolding ulp_def by (subst power_int_add) simp_all
  then show "ulp q * 2 ^ 52 = 2 powi (expo q)" by simp
  have "ulp q * 2 powi 53 = 2 powi (expo q - 52 + 53)"
    unfolding ulp_def by (subst power_int_add) simp_all
  then show "ulp q * 2 ^ 53 = 2 powi (expo q + 1)" by (simp add: add.commute)
qed

lemma mantissa_bounds:
  assumes "0 < q"
  shows "2 ^ 52 \<le> q / ulp q" and "q / ulp q < 2 ^ 53"
proof -
  from expo_bounds[OF assms] ulp_scale[of q]
  have "ulp q * 2 ^ 52 \<le> q" "q < ulp q * 2 ^ 53" by simp_all
  then show "2 ^ 52 \<le> q / ulp q" and "q / ulp q < 2 ^ 53"
    using ulp_pos[of q] by (simp_all add: field_simps)
qed

lemma to_double_range:
  assumes "0 < q"
  shows "2 powi (expo q) \<le> to_double q" and "to_double q \<le> 2 powi (expo q + 1)"
proof -
  have "round_half_even (of_int (2 ^ 52)) \<le> round_half_even (q / ulp q)"
    using mantissa_bounds(1)[OF assms] by (intro rhe_mono) simp
  then have "(2::int) ^ 52 \<le> round_half_even (q / ulp q)" by (simp only: rhe_of_int)
  then have "(of_int (2 ^ 52) :: rat) \<le> of_int (round_half_even (q / ulp q))"
    by (simp only: of_int_le_iff)
  then have "2 ^ 52 * ulp q \<le> of_int (round_half_even (q / ulp q)) * ulp q"
    using ulp_pos[of q] by simp
  then show "2 powi (expo q) \<le> to_double q"
    using ulp_scale(1)[of q] by (simp add: to_double_pos[OF assms] mult.commute)
  have "round_half_even (q / ulp q) \<le> round_half_even (of_int (2 ^ 53))"
    using mantissa_bounds(2)[OF assms] by (intro rhe_mono) simp
  then have "round_half_even (q / ulp q) \<le> (2::int) ^ 53" by (simp only: rhe_of_int)
  then have "(of_int (round_half_even (q / ulp q)) :: rat) \<le> of_int (2 ^ 53)"
    by (simp only: of_int_le_iff)
  then have "of_int (round_half_even (q / ulp q)) * ulp q \<le> 2 ^ 53 * ulp q"
    using ulp_pos[of q] by simp
  then show "to_double q \<le> 2 powi (expo q + 1)"
    using ulp_scale(2)[of q] by (simp add: to_double_pos[OF assms] mult.commute)
qed

lemma expo_mono:
  assumes "0 < q1" and "q1 \<le> q2"
  shows "expo q1 \<le> expo q2"
proof -
  from assms have q2: "0 < q2" by simp
  from expo_bounds(1)[OF assms(1)] expo_bounds(2)[OF q2] assms(2)
  have lt: "(2::rat) powi (expo q1) < 2 powi (expo q2 + 1)" by linarith
  have "expo q1 < expo q2 + 1"
  proof (rule ccontr)
    assume "\<not> expo q1 < expo q2 + 1"
    then have "expo q2 + 1 \<le> expo q1" by simp
    from power_int_increasing[OF this, of "2::rat"]
    have "(2::rat) powi (expo q2 + 1) \<le> 2 powi (expo q1)" by simp
    with lt show False by linarith
  qed
  then show ?thesis by simp
qed

lemma to_double_mono:
  assumes "0 \<le> q1" and "q1 \<le> q2"
  shows "to_double q1 \<le> to_double q2"
proof (cases "q1 = 0")
  case True
  show ?thesis
  proof (cases "q2 = 0")
    case True
    with \<open>q1 = 0\<close> show ?thesis by simp
  next
    case False
    with assms have "0 < q2" by simp
    from to_double_range(1)[OF this] have "0 < to_double q2"
      by (meson less_le_trans zero_less_numeral zero_less_power_int)
    with True show ?thesis by (simp add: to_double_def)
  qed
next
  case False
  with assms have p1: "0 < q1" and p2: "0 < q2" by simp_all
  show ?thesis
  proof (cases "expo q1 = expo q2")
    case True
    then have u: "ulp q1 = ulp q2" by (simp add: ulp_def)
    from assms(2) ulp_pos[of q2] have "q1 / ulp q2 \<le> q2 / ulp q2"
      by (simp add: divide_right_mono)
    from rhe_mono[OF this]
    have "(of_int (round_half_even (q1 / ulp q2)) :: rat) \<le> of_int (round_half_even (q2 / ulp q2))"
      by (simp only: of_int_le_iff)
    then show ?thesis
      using ulp_pos[of q2] by (simp add: to_double_pos p1 p2 u)
  next
    case False
    with expo_mono[OF p1 assms(2)] have "expo q1 + 1 \<le> expo q2" by simp
    then have "(2::rat) powi (expo q1 + 1) \<le> 2 powi (expo q2)"
      by (simp add: power_int_increasing)
    with to_double_range(2)[OF p1] to_double_range(1)[OF p2] show ?thesis by linarith
  qed
qed


lemma to_double_nonneg: "0 \<le> q \<Longrightarrow> 0 \<le> to_double q"
  using to_double_mono[of 0 q] by (simp add: to_double_def)

lemma count_complete_le: "count_complete ts \<le> length ts"
  by (simp add: count_complete_def)

lemma to_double_1: "to_double 1 = 1"
  by (simp add: feval)

lemma to_double_100: "to_double 100 = 100"
  by (simp add: feval)

lemma percent_range:
  assumes "c \<le> t" and "0 < t"
  shows "0 \<le> to_double (to_double (of_nat c / of_nat t) * 100)"
    and "to_double (to_double (of_nat c / of_nat t) * 100) \<le> 100"
proof -
  let ?q = "of_nat c / of_nat t :: rat"
  from assms have q: "0 \<le> ?q" "?q \<le> 1" by simp_all
  from to_double_nonneg[OF q(1)] have x0: "0 \<le> to_double ?q" .
  from to_double_mono[OF q] have x1: "to_double ?q \<le> 1" by (simp add: to_double_1)
  from x0 have y0: "0 \<le> to_double ?q * 100" by simp
  from x1 have y1: "to_double ?q * 100 \<le> 100" by simp
  from to_double_nonneg[OF y0] show "0 \<le> to_double (to_double ?q * 100)" .
  from to_double_mono[OF y0 y1] show "to_double (to_double ?q * 100) \<le> 100"
    by (simp add: to_double_100)
qed

lemma progress_range:
  assumes "c \<le> t"
  shows "0 \<le> num_value (progress c t)" and "num_value (progress c t) \<le> 100"
  using percent_range[OF assms] by (simp_all add: progress_def)

lemma tenths_range:
  assumes "0 \<le> x" and "x \<le> 100"
  shows "tenths x \<le> 1000"
proof -
  from assms have "x * 10 \<le> of_int 1000" by simp
  from rhe_mono[OF this] have "round_half_even (x * 10) \<le> 1000" by (simp only: rhe_of_int)
  with assms(1) show ?thesis by (simp add: tenths_def)
qed

lemma rhe_0 [simp]: "round_half_even 0 = 0"
  by (simp add: round_half_even_def)




lemma render_microversion_eq:
  "render_microversion e acc mv =
     \<lparr>html_content = html_content acc @ microversion_block e mv,
      total_sprint_tasks = total_sprint_tasks acc + length (tasks mv),
      completed_sprint_tasks = completed_sprint_tasks acc + count_complete (tasks mv)\<rparr>"
  by (simp add: render_microversion_def microversion_block_def Let_def)

lemma microversion_block_eq:
  "microversion_block e mv =
     microversion_open mv @
     progress_bar e (count_complete (tasks mv)) (length (tasks mv))
       (progress (count_complete (tasks mv)) (length (tasks mv))) @
     (if tasks mv = [] then no_tasks_notice else task_list (tasks mv)) @ str ''  </div>'' @ nl"
  by (simp add: render_microversion_def microversion_block_def Let_def)

lemma foldl_render_microversion:
  "foldl (render_microversion e) acc mvs =
     \<lparr>html_content = html_content acc @ concat (map (microversion_block e) mvs),
      total_sprint_tasks = total_sprint_tasks acc + sum_list (map (\<lambda>mv. length (tasks mv)) mvs),
      completed_sprint_tasks =
        completed_sprint_tasks acc + sum_list (map (\<lambda>mv. count_complete (tasks mv)) mvs)\<rparr>"
  by (induction mvs arbitrary: acc) (simp_all add: render_microversion_eq)

lemma render_direct_tasks_eq:
  "render_direct_tasks acc s =
     \<lparr>html_content = html_content acc @ direct_block s,
      total_sprint_tasks = total_sprint_tasks acc + length (direct_tasks s),
      completed_sprint_tasks = completed_sprint_tasks acc + count_complete (direct_tasks s)\<rparr>"
  by (simp add: render_direct_tasks_def direct_block_def direct_tasks_def count_complete_def
        split: option.splits)

lemma sum_count_complete_le:
  "sum_list (map (\<lambda>mv. count_complete (tasks mv)) mvs) \<le> sum_list (map (\<lambda>mv. length (tasks mv)) mvs)"
  by (induction mvs) (simp_all add: add_mono count_complete_le)

lemma sprint_totals_eq:
  "sprint_totals e html s =
     \<lparr>html_content = html @ sprint_open s @ direct_block s @
        concat (map (microversion_block e) (microversions s)),
      total_sprint_tasks =
        length (direct_tasks s) + sum_list (map (\<lambda>mv. length (tasks mv)) (microversions s)),
      completed_sprint_tasks =
        count_complete (direct_tasks s) +
        sum_list (map (\<lambda>mv. count_complete (tasks mv)) (microversions s))\<rparr>"
  by (simp add: sprint_totals_def foldl_render_microversion render_direct_tasks_eq)

lemma sprint_totals_le:
  "completed_sprint_tasks (sprint_totals e html s) \<le> total_sprint_tasks (sprint_totals e html s)"
  by (simp add: sprint_totals_eq add_mono count_complete_le sum_count_complete_le)

lemma render_sprint_append: "render_sprint e html s = html @ sprint_block e s"
proof -
  have h: "html_content (sprint_totals e html s) = html @ html_content (sprint_totals e [] s)"
    and t: "total_sprint_tasks (sprint_totals e html s) = total_sprint_tasks (sprint_totals e [] s)"
    and c: "completed_sprint_tasks (sprint_totals e html s) =
            completed_sprint_tasks (sprint_totals e [] s)"
    by (simp_all add: sprint_totals_eq)
  show ?thesis
    unfolding render_sprint_def sprint_block_def Let_def h t c by simp
qed

lemma foldl_render_sprint:
  "foldl (render_sprint e) html model = html @ concat (map (sprint_block e) model)"
  by (induction model arbitrary: html) (simp_all add: render_sprint_append)

lemma sprint_block_generated_on [simp]:
  "sprint_block (e\<lparr>generated_on := t\<rparr>) s = sprint_block e s"
proof -
  have "render_microversion (e\<lparr>generated_on := t\<rparr>) = render_microversion e"
    by (intro ext) (simp add: render_microversion_def progress_bar_def)
  moreover have "sprint_summary (e\<lparr>generated_on := t\<rparr>) = sprint_summary e"
    by (intro ext) (simp add: sprint_summary_def)
  ultimately show ?thesis
    by (simp add: sprint_block_def render_sprint_def sprint_totals_def Let_def)
qed

lemma page_head_generated_on:
  "page_head (e\<lparr>generated_on := t\<rparr>) = head_before e @ t @ head_after"
  by (simp add: page_head_def head_before_def head_after_def)

lemma parse_example_model:
  "parse_markdown ascii_digit example_plan =
     Inr [\<lparr>title = str ''Epic 1: Foo'', microversions = [], sprint_tasks = None\<rparr>, example_sprint]"
  by (simp add: parse_example_plan example_sprint_def example_microversion_def)







subsection \<open>The page as text\<close>






















section \<open>The claims about parse\_markdown\<close>

text \<open>
  C1.  The claim: a Sprint or Epic header met while a microversion is open closes that
  microversion into the sprint being closed, so that no microversion parsed under a sprint
  is missing from it.  The code does not: lines 24 to 37 append the open sprint and reset
  \<^verbatim>\<open>current_microversion\<close> without appending it (the microversion header of line 39 and the
  end of input of line 51 do append it).  In the plan below the microversion
  \<^verbatim>\<open>v0.1.0.0 - Setup\<close> with its task \<^verbatim>\<open>T1.1\<close> is open when the header of Sprint 2 is read, and
  Sprint 1 comes out with no microversion.
\<close>

theorem header_drops_open_microversion:
  "scan ascii_digit init_state [line_sprint, line_microversion, line_task_done] =
     Inr \<lparr>sprints = [],
          current_sprint = Some \<lparr>title = str ''Sprint 1: Bar'', microversions = [], sprint_tasks = None\<rparr>,
          current_microversion =
            Some \<lparr>mv_title = str ''v0.1.0.0 - Setup'',
                  tasks = [\<lparr>task_id = Some (str ''T1.1''), description = str ''Do thing'',
                            status = Complete\<rparr>]\<rparr>\<rparr> \<and>
   parse_markdown ascii_digit plan_two_sprints =
     Inr [\<lparr>title = str ''Sprint 1: Bar'', microversions = [], sprint_tasks = None\<rparr>,
          \<lparr>title = str ''Sprint 2: Baz'', microversions = [], sprint_tasks = None\<rparr>]"
  by (simp add: parse_markdown_def plan_two_sprints_def splitlines_join_lines no_linebreaks
        parse_lines_def init_state_def step_lines close_sprint_def finish_def bindE_def
        append_microversion_def)

text \<open>
  C3.  A task line read while no microversion is open, and a microversion header read
  while no sprint or epic is open, leaves the accumulator as it is: the document parses
  to the same result as the document without that line (so the line makes no record and
  is not attached to any later header), and the parse raises no error.  \<open>st\<close> is the
  accumulator when the line \<open>l\<close> is read.
\<close>

theorem orphan_lines_discarded:
  assumes "splitlines md = pre @ l # post" and "splitlines md' = pre @ post"
    and "scan dg init_state pre = Inr st"
    and "(re_match (task_re dg) l \<noteq> None \<and> current_microversion st = None) \<or>
         (re_match (microversion_re dg) l \<noteq> None \<and> current_sprint st = None)"
  shows "step dg st l = Inr st \<and> parse_markdown dg md = parse_markdown dg md' \<and>
         (\<exists>result. parse_markdown dg md = Inr result)"
proof -
  have ign: "step dg st l = Inr st"
  proof (rule disjE[OF assms(4)])
    assume a: "re_match (task_re dg) l \<noteq> None \<and> current_microversion st = None"
    with header_exclusive(4)[of dg l]
    have "re_match (epic_re dg) l = None" "re_match (sprint_re dg) l = None"
      "re_match (microversion_re dg) l = None" by simp_all
    with a show ?thesis by (simp add: step_ignored)
  next
    assume a: "re_match (microversion_re dg) l \<noteq> None \<and> current_sprint st = None"
    with header_exclusive(3)[of dg l]
    have "re_match (epic_re dg) l = None" "re_match (sprint_re dg) l = None"
      "re_match (task_re dg) l = None" by simp_all
    with a show ?thesis by (simp add: step_ignored)
  qed
  moreover from parse_lines_skip[OF assms(3) ign]
  have "parse_markdown dg md = parse_markdown dg md'"
    by (simp add: parse_markdown_def assms(1,2))
  ultimately show ?thesis by (simp add: parse_markdown_def parse_lines_total)
qed

theorem orphan_lines_discarded_witness:
  "scan ascii_digit init_state [line_sprint] =
     Inr \<lparr>sprints = [],
          current_sprint = Some \<lparr>title = str ''Sprint 1: Bar'', microversions = [], sprint_tasks = None\<rparr>,
          current_microversion = None\<rparr> \<and>
   re_match (task_re ascii_digit) line_task_open \<noteq> None \<and>
   parse_markdown ascii_digit (join_lines [line_sprint, line_task_open, line_microversion]) =
     parse_markdown ascii_digit (join_lines [line_sprint, line_microversion]) \<and>
   re_match (microversion_re ascii_digit) line_microversion \<noteq> None \<and>
   parse_markdown ascii_digit (join_lines [line_microversion, line_sprint]) =
     parse_markdown ascii_digit (join_lines [line_sprint])"
proof -
  let ?st = "\<lparr>sprints = [],
      current_sprint = Some \<lparr>title = str ''Sprint 1: Bar'', microversions = [], sprint_tasks = None\<rparr>,
      current_microversion = None\<rparr>"
  have sc: "scan ascii_digit init_state [line_sprint] = Inr ?st"
    by (simp add: init_state_def step_lines close_sprint_def)
  have t: "re_match (task_re ascii_digit) line_task_open \<noteq> None"
    by (simp add: match_line_task_open)
  have v: "re_match (microversion_re ascii_digit) line_microversion \<noteq> None"
    by (simp add: match_line_microversion)
  have "parse_markdown ascii_digit (join_lines [line_sprint, line_task_open, line_microversion]) =
     parse_markdown ascii_digit (join_lines [line_sprint, line_microversion])"
    using orphan_lines_discarded[of "join_lines [line_sprint, line_task_open, line_microversion]"
        "[line_sprint]" line_task_open "[line_microversion]"
        "join_lines [line_sprint, line_microversion]" ascii_digit ?st] sc t
    by (simp add: splitlines_join_lines no_linebreaks)
  moreover have "parse_markdown ascii_digit (join_lines [line_microversion, line_sprint]) =
     parse_markdown ascii_digit (join_lines [line_sprint])"
    using orphan_lines_discarded[of "join_lines [line_microversion, line_sprint]"
        "[]" line_microversion "[line_sprint]" "join_lines [line_sprint]" ascii_digit init_state] v
    by (simp add: splitlines_join_lines no_linebreaks init_state_def)
  ultimately show ?thesis using sc t v by simp
qed

text \<open>
  C4.  An Epic header followed by a Sprint header, with no Epic, Sprint or microversion
  header between them, gives two entries of the result, one after the other and in that
  order; the Epic's entry has no microversion.  The titles are the first groups of the
  two matches, stripped.
\<close>

theorem epic_then_sprint_flat:
  assumes "splitlines md = pre @ [e] @ mid @ [s] @ post"
    and "re_match (epic_re dg) e = Some me" and "re_match (sprint_re dg) s = Some ms"
    and "\<forall>l\<in>set mid. re_match (epic_re dg) l = None \<and> re_match (sprint_re dg) l = None \<and>
           re_match (microversion_re dg) l = None"
  shows "\<exists>ge gs A B M. me 1 = Some ge \<and> ms 1 = Some gs \<and>
           parse_markdown dg md =
             Inr (A @ [\<lparr>title = strip ge, microversions = [], sprint_tasks = None\<rparr>,
                       \<lparr>title = strip gs, microversions = M, sprint_tasks = None\<rparr>] @ B)"
proof -
  from scan_total obtain st0 where s0: "scan dg init_state pre = Inr st0" by blast
  from step_epic[OF assms(2), of st0] obtain ge where ge: "me 1 = Some ge"
    and s1: "step dg st0 e =
      Inr \<lparr>sprints = close_sprint st0,
           current_sprint = Some \<lparr>title = strip ge, microversions = [], sprint_tasks = None\<rparr>,
           current_microversion = None\<rparr>" (is "_ = Inr ?st1") by blast
  have "\<forall>l\<in>set mid. step dg ?st1 l = Inr ?st1"
    using assms(4) by (simp add: step_ignored)
  from scan_ignored[OF this] have s2: "scan dg ?st1 mid = Inr ?st1" .
  from step_sprint[OF assms(3), of ?st1] obtain gs where gs: "ms 1 = Some gs"
    and s3: "step dg ?st1 s =
      Inr \<lparr>sprints = close_sprint ?st1,
           current_sprint = Some \<lparr>title = strip gs, microversions = [], sprint_tasks = None\<rparr>,
           current_microversion = None\<rparr>" (is "_ = Inr ?st3") by blast
  from scan_total obtain st4 where s4: "scan dg ?st3 post = Inr st4" by blast
  have all: "scan dg init_state (pre @ [e] @ mid @ [s] @ post) = Inr st4"
    using s0 s1 s2 s3 s4 by (simp add: scan_append)
  from parse_lines_total obtain r where r: "parse_lines dg (pre @ [e] @ mid @ [s] @ post) = Inr r"
    by blast
  with all have fin: "finish st4 = Inr r" by (simp add: parse_lines_def bindE_def)
  have "current_sprint ?st3 = Some \<lparr>title = strip gs, microversions = [], sprint_tasks = None\<rparr>"
    by simp
  from tail_keeps_open_sprint[OF this s4 fin] obtain M B where
    "r = sprints ?st3 @ [\<lparr>title = strip gs, microversions = [], sprint_tasks = None\<rparr>
           \<lparr>microversions := microversions \<lparr>title = strip gs, microversions = [], sprint_tasks = None\<rparr> @ M\<rparr>] @ B"
    by blast
  then have "r = close_sprint st0 @ [\<lparr>title = strip ge, microversions = [], sprint_tasks = None\<rparr>,
       \<lparr>title = strip gs, microversions = M, sprint_tasks = None\<rparr>] @ B"
    by (simp add: close_sprint_def)
  with r ge gs show ?thesis
    unfolding parse_markdown_def assms(1) by blast
qed

theorem epic_then_sprint_flat_witness:
  "splitlines example_plan =
     [] @ [line_epic] @ [] @ [line_sprint] @ [line_microversion, line_task_done, line_task_open] \<and>
   (\<exists>A B M. parse_markdown ascii_digit example_plan =
      Inr (A @ [\<lparr>title = str ''Epic 1: Foo'', microversions = [], sprint_tasks = None\<rparr>,
                \<lparr>title = str ''Sprint 1: Bar'', microversions = M, sprint_tasks = None\<rparr>] @ B))"
proof -
  have sp: "splitlines example_plan =
     [] @ [line_epic] @ [] @ [line_sprint] @ [line_microversion, line_task_done, line_task_open]"
    by (simp add: example_plan_def splitlines_join_lines no_linebreaks)
  have "\<forall>l\<in>set []. re_match (epic_re ascii_digit) l = None \<and>
      re_match (sprint_re ascii_digit) l = None \<and> re_match (microversion_re ascii_digit) l = None"
    by simp
  from epic_then_sprint_flat[OF sp match_line_epic match_line_sprint this]
  have "\<exists>A B M. parse_markdown ascii_digit example_plan =
       Inr (A @ [\<lparr>title = str ''Epic 1: Foo'', microversions = [], sprint_tasks = None\<rparr>,
                 \<lparr>title = str ''Sprint 1: Bar'', microversions = M, sprint_tasks = None\<rparr>] @ B)"
    by (auto simp: strip_examples)
  with sp show ?thesis by simp
qed

text \<open>
  C5.  At the end of the input the accumulator \<open>st\<close> of the scan is flushed: the result is
  the list of closed sprints, then the open sprint (if any), which has the open
  microversion (if any) appended to its microversions.  A microversion is open only
  inside an open sprint, so an open microversion is never left out.
\<close>

theorem end_of_input_finalization:
  "\<exists>st. scan dg init_state (splitlines md) = Inr st \<and>
        (current_microversion st \<noteq> None \<longrightarrow> current_sprint st \<noteq> None) \<and>
        parse_markdown dg md =
          Inr (case current_sprint st of
                 None \<Rightarrow> sprints st
               | Some cs \<Rightarrow> sprints st @
                   [case current_microversion st of
                      None \<Rightarrow> cs
                    | Some cm \<Rightarrow> cs\<lparr>microversions := microversions cs @ [cm]\<rparr>])"
proof -
  from scan_total obtain st where s: "scan dg init_state (splitlines md) = Inr st" by blast
  from scan_mv_inside[OF init_mv_inside s] have inv: "mv_inside st" .
  then have "current_microversion st \<noteq> None \<longrightarrow> current_sprint st \<noteq> None"
    by (simp add: mv_inside_def)
  from finish_eq[OF this] s this show ?thesis
    by (intro exI[of _ st]) (simp add: parse_markdown_def parse_lines_def bindE_def)
qed

theorem end_of_input_finalization_witness:
  "\<exists>st. scan ascii_digit init_state (splitlines example_plan) = Inr st \<and>
        current_sprint st =
          Some \<lparr>title = str ''Sprint 1: Bar'', microversions = [], sprint_tasks = None\<rparr> \<and>
        current_microversion st =
          Some \<lparr>mv_title = str ''v0.1.0.0 - Setup'',
                tasks = [\<lparr>task_id = Some (str ''T1.1''), description = str ''Do thing'',
                          status = Complete\<rparr>,
                         \<lparr>task_id = Some (str ''T1.2''), description = str ''Do other thing'',
                          status = Open\<rparr>]\<rparr> \<and>
        parse_markdown ascii_digit example_plan =
          Inr (sprints st @
            [\<lparr>title = str ''Sprint 1: Bar'',
              microversions =
                [\<lparr>mv_title = str ''v0.1.0.0 - Setup'',
                  tasks = [\<lparr>task_id = Some (str ''T1.1''), description = str ''Do thing'',
                            status = Complete\<rparr>,
                           \<lparr>task_id = Some (str ''T1.2''), description = str ''Do other thing'',
                            status = Open\<rparr>]\<rparr>],
              sprint_tasks = None\<rparr>])"
proof -
  from end_of_input_finalization[of ascii_digit example_plan] obtain st where
    sc: "scan ascii_digit init_state (splitlines example_plan) = Inr st"
    and pm: "parse_markdown ascii_digit example_plan =
          Inr (case current_sprint st of
                 None \<Rightarrow> sprints st
               | Some cs \<Rightarrow> sprints st @
                   [case current_microversion st of
                      None \<Rightarrow> cs
                    | Some cm \<Rightarrow> cs\<lparr>microversions := microversions cs @ [cm]\<rparr>])"
    by blast
  have "scan ascii_digit init_state (splitlines example_plan) =
      Inr \<lparr>sprints = [\<lparr>title = str ''Epic 1: Foo'', microversions = [], sprint_tasks = None\<rparr>],
           current_sprint =
             Some \<lparr>title = str ''Sprint 1: Bar'', microversions = [], sprint_tasks = None\<rparr>,
           current_microversion =
             Some \<lparr>mv_title = str ''v0.1.0.0 - Setup'',
                   tasks = [\<lparr>task_id = Some (str ''T1.1''), description = str ''Do thing'',
                             status = Complete\<rparr>,
                            \<lparr>task_id = Some (str ''T1.2''), description = str ''Do other thing'',
                             status = Open\<rparr>]\<rparr>\<rparr>"
    by (simp add: example_plan_def splitlines_join_lines no_linebreaks init_state_def
          step_lines close_sprint_def)
  with sc have st: "st = \<lparr>sprints = [\<lparr>title = str ''Epic 1: Foo'', microversions = [], sprint_tasks = None\<rparr>],
           current_sprint =
             Some \<lparr>title = str ''Sprint 1: Bar'', microversions = [], sprint_tasks = None\<rparr>,
           current_microversion =
             Some \<lparr>mv_title = str ''v0.1.0.0 - Setup'',
                   tasks = [\<lparr>task_id = Some (str ''T1.1''), description = str ''Do thing'',
                             status = Complete\<rparr>,
                            \<lparr>task_id = Some (str ''T1.2''), description = str ''Do other thing'',
                             status = Open\<rparr>]\<rparr>\<rparr>" by simp
  show ?thesis
    using sc pm by (intro exI[of _ st]) (simp add: st)
qed

text \<open>
  C9.  \<^verbatim>\<open>parse_markdown\<close> returns a list of sprints for every input and never raises: no
  step of the loop raises, at most one of the four patterns matches a line, and a line
  that no pattern matches leaves the accumulator as it is.
\<close>

theorem parse_markdown_total:
  "(\<exists>result. parse_markdown dg md = Inr result) \<and> (\<exists>st'. step dg st l = Inr st') \<and>
   length (matching dg l) \<le> 1 \<and> (matching dg l = [] \<longrightarrow> step dg st l = Inr st)"
proof (intro conjI)
  show "\<exists>result. parse_markdown dg md = Inr result"
    by (simp add: parse_markdown_def parse_lines_total)
  show "\<exists>st'. step dg st l = Inr st'" by (rule step_total)
  show "length (matching dg l) \<le> 1"
  proof (cases "re_match (epic_re dg) l = None")
    case False
    with header_exclusive(1)[of dg l] show ?thesis by (simp add: matching_def)
  next
    case e: True
    show ?thesis
    proof (cases "re_match (sprint_re dg) l = None")
      case False
      with header_exclusive(2)[of dg l] show ?thesis by (simp add: matching_def)
    next
      case s: True
      show ?thesis
      proof (cases "re_match (microversion_re dg) l = None")
        case False
        with header_exclusive(3)[of dg l] show ?thesis by (simp add: matching_def)
      next
        case True
        with e s show ?thesis by (simp add: matching_def)
      qed
    qed
  qed
  show "matching dg l = [] \<longrightarrow> step dg st l = Inr st"
  proof
    assume "matching dg l = []"
    then have "re_match (epic_re dg) l = None" "re_match (sprint_re dg) l = None"
      "re_match (microversion_re dg) l = None" "re_match (task_re dg) l = None"
      unfolding matching_def filter_empty_conv by simp_all
    then show "step dg st l = Inr st" by (simp add: step_ignored)
  qed
qed

theorem parse_markdown_total_witness:
  "(\<exists>result. parse_markdown ascii_digit example_plan = Inr result) \<and>
   matching ascii_digit line_notes = [] \<and>
   step ascii_digit init_state line_notes = Inr init_state"
proof -
  have "matching ascii_digit line_notes = []"
    by (simp add: matching_def line_defs re_defs)
  with parse_markdown_total[of ascii_digit example_plan init_state line_notes]
  show ?thesis by simp
qed


text \<open>
  C6, as amended.  A line that the task pattern matches while a microversion \<open>mv\<close> is
  open has the form \<^verbatim>\<open>- [c] **ID**: rest\<close> with \<open>c\<close> one of \<^verbatim>\<open>x\<close>, blank and the check mark, and
  the step appends to \<open>mv\<close> the task with that identifier, with status Complete exactly
  when \<open>c\<close> is \<^verbatim>\<open>x\<close> or the check mark, and with the description \<open>rest\<close> cut at the first
  marker or the end of the line and stripped.  The markers are those of the pattern: the
  first is \<^verbatim>\<open> - **Effort\<close>, with a blank in front of the hyphen.
\<close>

theorem task_line_fields:
  assumes "re_match (task_re dg) line = Some m" and "current_microversion st = Some mv"
  shows "\<exists>ch tid rest.
           line = str ''- ['' @ [ch] @ str ''] **'' @ tid @ str ''**: '' @ rest \<and>
           ([ch] = str ''x'' \<or> [ch] = str '' '' \<or> [ch] = check_mark) \<and>
           step dg st line =
             Inr (st\<lparr>current_microversion :=
                    Some (mv\<lparr>tasks := tasks mv @
                      [\<lparr>task_id = Some tid,
                        description = strip (take (desc_end rest) rest),
                        status = (if [ch] = str ''x'' \<or> [ch] = check_mark
                                  then Complete else Open)\<rparr>]\<rparr>)\<rparr>)"
proof -
  from task_match_shape[OF assms(1)] obtain ch tid rest where
    l: "line = str ''- ['' @ [ch] @ str ''] **'' @ tid @ str ''**: '' @ rest"
    and ch: "ch = 120 \<or> ch = 32 \<or> ch = 9989"
    and g: "m 1 = Some [ch]" "m 2 = Some tid" "m 3 = Some (take (desc_end rest) rest)"
    by blast
  from step_task[OF assms] g
  have "step dg st line =
     Inr (st\<lparr>current_microversion :=
            Some (mv\<lparr>tasks := tasks mv @
              [\<lparr>task_id = Some tid, description = strip (take (desc_end rest) rest),
                status = (if [ch] = str ''x'' \<or> [ch] = check_mark
                          then Complete else Open)\<rparr>]\<rparr>)\<rparr>)"
    by auto
  moreover from ch have "[ch] = str ''x'' \<or> [ch] = str '' '' \<or> [ch] = check_mark"
    by (auto simp: str_def check_mark_def)
  ultimately show ?thesis using l by blast
qed

theorem task_line_fields_witness:
  "(\<exists>ch tid rest.
      line_task_done = str ''- ['' @ [ch] @ str ''] **'' @ tid @ str ''**: '' @ rest \<and>
      ([ch] = str ''x'' \<or> [ch] = str '' '' \<or> [ch] = check_mark) \<and>
      step ascii_digit
        \<lparr>sprints = [], current_sprint = None,
         current_microversion = Some \<lparr>mv_title = str ''v0.1.0.0 - Setup'', tasks = []\<rparr>\<rparr>
        line_task_done =
        Inr \<lparr>sprints = [], current_sprint = None,
             current_microversion =
               Some \<lparr>mv_title = str ''v0.1.0.0 - Setup'',
                     tasks = [\<lparr>task_id = Some tid,
                               description = strip (take (desc_end rest) rest),
                               status = (if [ch] = str ''x'' \<or> [ch] = check_mark
                                         then Complete else Open)\<rparr>]\<rparr>\<rparr>) \<and>
   strip (take (desc_end (str ''Do thing - **Effort**: 2h'')) (str ''Do thing - **Effort**: 2h''))
     = str ''Do thing''"
proof -
  have "strip (take (desc_end (str ''Do thing - **Effort**: 2h'')) (str ''Do thing - **Effort**: 2h''))
     = str ''Do thing''"
    by (simp add: str_def at_marker_def marker_words_def strip_def is_space_def)
  with task_line_fields[OF match_line_task_done,
      of "\<lparr>sprints = [], current_sprint = None,
           current_microversion = Some \<lparr>mv_title = str ''v0.1.0.0 - Setup'', tasks = []\<rparr>\<rparr>"
         "\<lparr>mv_title = str ''v0.1.0.0 - Setup'', tasks = []\<rparr>"]
  show ?thesis by simp
qed

text \<open>
  C6 as stated fails: with the marker \<^verbatim>\<open>- **Effort\<close> of the claim the description of the line
  \<^verbatim>\<open>- [ ] **T1**: fix- **Effort**: 2h\<close> would be \<^verbatim>\<open>fix\<close>; the pattern asks for a blank before the
  hyphen, finds no marker, and the description runs to the end of the line.
\<close>

theorem effort_marker_counterexample:
  "line_task_glued = str ''- [ ] **T1**: '' @ str ''fix- **Effort**: 2h'' \<and>
   parse_markdown ascii_digit plan_glued =
     Inr [\<lparr>title = str ''Sprint 1: Bar'',
           microversions =
             [\<lparr>mv_title = str ''v0.1.0.0 - Setup'',
               tasks = [\<lparr>task_id = Some (str ''T1''),
                         description = str ''fix- **Effort**: 2h'', status = Open\<rparr>]\<rparr>],
           sprint_tasks = None\<rparr>] \<and>
   claimed_description (str ''fix- **Effort**: 2h'') = str ''fix'' \<and>
   str ''fix- **Effort**: 2h'' \<noteq> str ''fix''"
proof (intro conjI)
  show "line_task_glued = str ''- [ ] **T1**: '' @ str ''fix- **Effort**: 2h''"
    by (simp add: line_defs str_def)
  show "parse_markdown ascii_digit plan_glued =
     Inr [\<lparr>title = str ''Sprint 1: Bar'',
           microversions =
             [\<lparr>mv_title = str ''v0.1.0.0 - Setup'',
               tasks = [\<lparr>task_id = Some (str ''T1''),
                         description = str ''fix- **Effort**: 2h'', status = Open\<rparr>]\<rparr>],
           sprint_tasks = None\<rparr>]"
    by (simp add: parse_markdown_def plan_glued_def splitlines_join_lines no_linebreaks
        parse_lines_def init_state_def step_lines close_sprint_def finish_def bindE_def
        append_microversion_def)
  show "claimed_description (str ''fix- **Effort**: 2h'') = str ''fix''"
    by (simp add: claimed_description_def claimed_at_marker_def claimed_marker_words_def
          str_def strip_def is_space_def)
  show "str ''fix- **Effort**: 2h'' \<noteq> str ''fix''"
    by (simp add: str_def)
qed

section \<open>The claims about generate\_html\_report\<close>





text \<open>
  Claim C8.  For a model, a stylesheet link (it is computed from the two paths) and the
  interpreter's printing of floats, the page is a text \<open>before\<close>, the time stamp, and a text
  \<open>after\<close>, where \<open>before\<close> and \<open>after\<close> are the same for every time stamp.  Two renderings of
  the same model with the same paths therefore differ in the time stamp only.
\<close>

theorem rendering_differs_only_in_timestamp:
  "\<exists>before after. \<forall>t. generate_html_report (e\<lparr>generated_on := t\<rparr>) model = before @ t @ after"
proof (intro exI allI)
  fix t
  have "sprint_block (e\<lparr>generated_on := t\<rparr>) = sprint_block e"
    by (intro ext) simp
  then show "generate_html_report (e\<lparr>generated_on := t\<rparr>) model =
      head_before e @ t @ (head_after @ concat (map (sprint_block e) model) @ page_foot)"
    by (simp add: generate_html_report_def foldl_render_sprint page_head_generated_on)
qed

text \<open>
  Claim C10.  Let \<open>model\<close> be a result of \<open>parse_markdown\<close>, \<open>s\<close> one of its sprints and \<open>mv\<close> one
  of the microversions of \<open>s\<close>.  The progress bar of \<open>mv\<close> is rendered from the counts
  \<open>c_mv\<close> and \<open>t_mv\<close>, and the summary of \<open>s\<close>, when there is one, from the counters \<open>c_s\<close> and
  \<open>t_s\<close>.  In both the completed count is at most the total, the progress value (the width
  in the style attribute) is between \<open>0\<close> and \<open>100\<close>, and the percentage printed with one
  decimal place is at most \<open>100.0\<close> (a thousand tenths).
\<close>

theorem progress_indicators_in_range:
  assumes "parse_markdown dg md = Inr model" and "s \<in> set model" and "mv \<in> set (microversions s)"
  shows
    "let c_mv = count_complete (tasks mv); t_mv = length (tasks mv);
         acc = sprint_totals e html s;
         c_s = completed_sprint_tasks acc; t_s = total_sprint_tasks acc
     in microversion_block e mv =
          microversion_open mv @ progress_bar e c_mv t_mv (progress c_mv t_mv) @
          (if tasks mv = [] then no_tasks_notice else task_list (tasks mv)) @
          str ''  </div>'' @ nl \<and>
        c_mv \<le> t_mv \<and>
        0 \<le> num_value (progress c_mv t_mv) \<and> num_value (progress c_mv t_mv) \<le> 100 \<and>
        tenths (num_value (progress c_mv t_mv)) \<le> 1000 \<and>
        render_sprint e html s =
          html_content acc @
          (if 0 < t_s then sprint_summary e c_s t_s (progress c_s t_s) else []) @
          str ''</section>'' @ nl \<and>
        c_s \<le> t_s \<and>
        0 \<le> num_value (progress c_s t_s) \<and> num_value (progress c_s t_s) \<le> 100 \<and>
        tenths (num_value (progress c_s t_s)) \<le> 1000"
proof -
  let ?c = "count_complete (tasks mv)" and ?t = "length (tasks mv)"
  let ?acc = "sprint_totals e html s"
  have 1: "?c \<le> ?t" by (rule count_complete_le)
  have 2: "completed_sprint_tasks ?acc \<le> total_sprint_tasks ?acc" by (rule sprint_totals_le)
  have 3: "render_sprint e html s =
          html_content ?acc @
          (if 0 < total_sprint_tasks ?acc
           then sprint_summary e (completed_sprint_tasks ?acc) (total_sprint_tasks ?acc)
                  (progress (completed_sprint_tasks ?acc) (total_sprint_tasks ?acc))
           else []) @ str ''</section>'' @ nl"
    by (simp add: render_sprint_def Let_def)
  show ?thesis
    unfolding Let_def
    using 1 2 3 progress_range[OF 1] progress_range[OF 2]
      tenths_range[OF progress_range[OF 1]] tenths_range[OF progress_range[OF 2]]
      microversion_block_eq[of e mv]
    by simp
qed

text \<open>The example plan parses to a model with the example sprint, and the bounds hold there.\<close>

theorem progress_indicators_in_range_witness:
  "parse_markdown ascii_digit example_plan =
     Inr [\<lparr>title = str ''Epic 1: Foo'', microversions = [], sprint_tasks = None\<rparr>, example_sprint] \<and>
   count_complete (tasks example_microversion) \<le> length (tasks example_microversion) \<and>
   num_value (progress (count_complete (tasks example_microversion))
     (length (tasks example_microversion))) \<le> 100 \<and>
   completed_sprint_tasks (sprint_totals example_env [] example_sprint)
     \<le> total_sprint_tasks (sprint_totals example_env [] example_sprint) \<and>
   num_value (progress (completed_sprint_tasks (sprint_totals example_env [] example_sprint))
     (total_sprint_tasks (sprint_totals example_env [] example_sprint))) \<le> 100"
proof -
  have "example_sprint \<in> set [\<lparr>title = str ''Epic 1: Foo'', microversions = [], sprint_tasks = None\<rparr>,
      example_sprint]" by simp
  moreover have "example_microversion \<in> set (microversions example_sprint)"
    by (simp add: example_sprint_def)
  ultimately show ?thesis
    using progress_indicators_in_range[OF parse_example_model, of example_sprint
        example_microversion example_env "[]"] parse_example_model
    by (simp add: Let_def)
qed

end
